theory Spec2Isabelle
  imports Complex_Main
begin

section \<open>Python values used by the calibration engine\<close>

text \<open>
  The engine (\<^verbatim>\<open>calibration.py\<close>, \<^verbatim>\<open>health_check.py\<close>) computes with Python
  \<^verbatim>\<open>int\<close> (unbounded, modelled by \<^typ>\<open>int\<close>) and Python \<^verbatim>\<open>float\<close> (IEEE 754
  binary64). A finite binary64 value is a rational number, so a float is modelled by the
  rational it denotes, or one of the three special values. The sign of a zero is not
  modelled: no operation of the engine observes it (Python's division raises on either
  zero, \<^verbatim>\<open>round\<close> and the comparisons do not distinguish them).
\<close>

datatype pyfloat = Fin rat | PInf | NInf | NaN

text \<open>
  The exceptions the engine can raise. \<open>InsufficientSamples\<close> is
  \<^verbatim>\<open>ValueError("Need at least 2 calibration points")\<close>, \<open>DegenerateInput\<close> is
  \<^verbatim>\<open>ValueError("Cannot compute scale ... logical coordinates contain zeros")\<close>,
  \<open>NotCalibrated\<close> is \<^verbatim>\<open>RuntimeError("Not calibrated ...")\<close>. The others are raised by
  the Python runtime: \<open>OverflowError\<close> (an int too large for a float, or \<^verbatim>\<open>round\<close> of an
  infinity), \<open>ZeroDivisionError\<close>, \<open>ValueError\<close> (\<^verbatim>\<open>round\<close> of a NaN, \<^verbatim>\<open>max\<close> of an
  empty list), \<open>TypeError\<close> (arithmetic on \<^verbatim>\<open>None\<close>), \<open>StatisticsError\<close> (median of
  no data) and \<open>UnboundLocalError\<close> (a local variable read before assignment).
\<close>

datatype error =
    InsufficientSamples
  | DegenerateInput
  | NotCalibrated
  | OverflowError
  | ZeroDivisionError
  | ValueError
  | TypeError
  | StatisticsError
  | UnboundLocalError

definition ebind :: "'e + 'a \<Rightarrow> ('a \<Rightarrow> 'e + 'b) \<Rightarrow> 'e + 'b" where
  "ebind m f = (case m of Inl e \<Rightarrow> Inl e | Inr x \<Rightarrow> f x)"

subsection \<open>Rounding to binary64\<close>

text \<open>Round to the nearest integer, ties to the even one (Python's \<^verbatim>\<open>round(x)\<close>).\<close>

definition rhe :: "rat \<Rightarrow> int" where
  "rhe x = (let f = \<lfloor>x\<rfloor>; d = x - of_int f in
     if d < 1/2 then f else if 1/2 < d then f + 1 else if even f then f else f + 1)"

text \<open>The binary exponent of a positive rational: \<open>2 ^ ilog2 x \<le> x < 2 ^ (ilog2 x + 1)\<close>.\<close>

function ilog2 :: "rat \<Rightarrow> int" where
  "ilog2 x = (if x \<le> 0 then 0
              else if 2 \<le> x then ilog2 (x / 2) + 1
              else if x < 1 then ilog2 (x * 2) - 1
              else 0)"
  by pat_completeness auto
termination
proof (relation "measure (\<lambda>x. 2 * nat \<lceil>1 / x\<rceil> + nat \<lfloor>x\<rfloor>)")
  show "wf (measure (\<lambda>x::rat. 2 * nat \<lceil>1 / x\<rceil> + nat \<lfloor>x\<rfloor>))" by simp
next
  fix x :: rat
  assume a: "\<not> x \<le> 0" "2 \<le> x"
  have c1: "\<lceil>1 / (x / 2)\<rceil> = 1" using a by (simp add: ceiling_eq_iff)
  have c2: "\<lceil>1 / x\<rceil> = 1" using a by (simp add: ceiling_eq_iff)
  have "\<lfloor>x / 2\<rfloor> < \<lfloor>x\<rfloor>" using a by (simp add: floor_less_iff) linarith
  moreover have "0 \<le> \<lfloor>x / 2\<rfloor>" using a by simp
  ultimately show "(x / 2, x) \<in> measure (\<lambda>x. 2 * nat \<lceil>1 / x\<rceil> + nat \<lfloor>x\<rfloor>)"
    using c1 c2 a by simp
next
  fix x :: rat
  assume a: "\<not> x \<le> 0" "\<not> 2 \<le> x" "x < 1"
  have f0: "\<lfloor>x\<rfloor> = 0" using a by (simp add: floor_eq_iff)
  have f1: "\<lfloor>x * 2\<rfloor> \<le> 1" using a by (simp add: floor_le_iff)
  have gt: "1 < 1 / x" using a by (simp add: field_simps)
  have "\<lceil>1 / (x * 2)\<rceil> < \<lceil>1 / x\<rceil>"
  proof -
    define c where "c = \<lceil>1 / x\<rceil>"
    have c2: "2 \<le> c" unfolding c_def using gt by linarith
    have "1 / x \<le> of_int c" unfolding c_def by simp
    then have "1 / (x * 2) \<le> of_int c / 2" by simp
    also have "\<dots> \<le> of_int (c - 1)"
    proof -
      have "of_int c \<le> (2::rat) * of_int (c - 1)" using c2 by (simp add: algebra_simps)
      then show ?thesis by simp
    qed
    finally have "\<lceil>1 / (x * 2)\<rceil> \<le> c - 1" by (simp only: ceiling_le_iff)
    then show ?thesis unfolding c_def by simp
  qed
  moreover have "0 < \<lceil>1 / (x * 2)\<rceil>" using a by simp
  ultimately show "(x * 2, x) \<in> measure (\<lambda>x. 2 * nat \<lceil>1 / x\<rceil> + nat \<lfloor>x\<rfloor>)"
    using f0 f1 a by simp linarith
qed

declare ilog2.simps [simp del]

definition pow2 :: "int \<Rightarrow> rat" where
  "pow2 e = (if 0 \<le> e then 2 ^ nat e else 1 / 2 ^ nat (- e))"

text \<open>
  \<open>fl x\<close> is the binary64 value nearest to the rational \<open>x\<close>, ties to even. \<open>fl_exp x\<close>
  is the exponent of \<open>x\<close>, no lower than \<open>- 1022\<close> (gradual underflow); \<open>fl_val x\<close> is \<open>x\<close>
  rounded to a multiple of \<open>2 ^ (fl_exp x - 52)\<close>, that is to 53 significant bits; and the
  result is an infinity once the rounded magnitude reaches \<open>2 ^ 1024\<close>.
  IEEE 754 defines \<^verbatim>\<open>+\<close>, \<^verbatim>\<open>-\<close>, \<^verbatim>\<open>*\<close> and \<^verbatim>\<open>/\<close> on finite operands as \<open>fl\<close> of the
  exact result; Python's \<^verbatim>\<open>int / int\<close>, its conversion of an int to a float and its
  float literals are correctly rounded too.
\<close>

definition fl_exp :: "rat \<Rightarrow> int" where
  "fl_exp x = max (ilog2 \<bar>x\<bar>) (- 1022)"

definition fl_val :: "rat \<Rightarrow> rat" where
  "fl_val x = of_int (rhe (x / pow2 (fl_exp x - 52))) * pow2 (fl_exp x - 52)"

definition fl :: "rat \<Rightarrow> pyfloat" where
  "fl x = (if 2 ^ 1024 \<le> fl_val x then PInf
           else if fl_val x \<le> - (2 ^ 1024) then NInf
           else Fin (fl_val x))"

subsection \<open>Float operations\<close>

fun fneg :: "pyfloat \<Rightarrow> pyfloat" where
  "fneg (Fin a) = Fin (- a)"
| "fneg PInf = NInf"
| "fneg NInf = PInf"
| "fneg NaN = NaN"

fun fadd :: "pyfloat \<Rightarrow> pyfloat \<Rightarrow> pyfloat" where
  "fadd (Fin a) (Fin b) = fl (a + b)"
| "fadd NaN y = NaN"
| "fadd x NaN = NaN"
| "fadd PInf NInf = NaN"
| "fadd NInf PInf = NaN"
| "fadd PInf y = PInf"
| "fadd NInf y = NInf"
| "fadd x PInf = PInf"
| "fadd x NInf = NInf"

definition fsub :: "pyfloat \<Rightarrow> pyfloat \<Rightarrow> pyfloat" where
  "fsub x y = fadd x (fneg y)"

fun fsgn :: "pyfloat \<Rightarrow> int" where
  "fsgn (Fin a) = (if a < 0 then - 1 else if a = 0 then 0 else 1)"
| "fsgn PInf = 1"
| "fsgn NInf = - 1"
| "fsgn NaN = 0"

fun fmul :: "pyfloat \<Rightarrow> pyfloat \<Rightarrow> pyfloat" where
  "fmul (Fin a) (Fin b) = fl (a * b)"
| "fmul NaN y = NaN"
| "fmul x NaN = NaN"
| "fmul x y = (let s = fsgn x * fsgn y in if s = 0 then NaN else if 0 < s then PInf else NInf)"

text \<open>Python's float division raises on a zero divisor, whatever the dividend.\<close>

fun fdiv :: "pyfloat \<Rightarrow> pyfloat \<Rightarrow> error + pyfloat" where
  "fdiv x (Fin b) =
     (if b = 0 then Inl ZeroDivisionError
      else case x of
             Fin a \<Rightarrow> Inr (fl (a / b))
           | NaN \<Rightarrow> Inr NaN
           | PInf \<Rightarrow> Inr (if 0 < b then PInf else NInf)
           | NInf \<Rightarrow> Inr (if 0 < b then NInf else PInf))"
| "fdiv NaN y = Inr NaN"
| "fdiv x NaN = Inr NaN"
| "fdiv (Fin a) y = Inr (Fin 0)"
| "fdiv x y = Inr NaN"

fun flt :: "pyfloat \<Rightarrow> pyfloat \<Rightarrow> bool" where
  "flt (Fin a) (Fin b) = (a < b)"
| "flt NaN y = False"
| "flt x NaN = False"
| "flt x NInf = False"
| "flt NInf y = True"
| "flt PInf y = False"
| "flt x PInf = True"

text \<open>Truth value of a float in a condition: every float but zero is true.\<close>

fun truthy :: "pyfloat \<Rightarrow> bool" where
  "truthy (Fin a) = (a \<noteq> 0)"
| "truthy x = True"

text \<open>\<^verbatim>\<open>int / int\<close>: the correctly rounded quotient; an error when it is out of range.\<close>

definition int_truediv :: "int \<Rightarrow> int \<Rightarrow> error + pyfloat" where
  "int_truediv a b =
     (if b = 0 then Inl ZeroDivisionError
      else case fl (of_int a / of_int b) of Fin r \<Rightarrow> Inr (Fin r) | _ \<Rightarrow> Inl OverflowError)"

text \<open>The conversion of an int operand in mixed int/float arithmetic.\<close>

definition int_to_float :: "int \<Rightarrow> error + pyfloat" where
  "int_to_float n = (case fl (of_int n) of Fin r \<Rightarrow> Inr (Fin r) | _ \<Rightarrow> Inl OverflowError)"

text \<open>\<^verbatim>\<open>round(x)\<close>: an int, ties to even.\<close>

fun py_round :: "pyfloat \<Rightarrow> error + int" where
  "py_round (Fin a) = Inr (rhe a)"
| "py_round NaN = Inl ValueError"
| "py_round x = Inl OverflowError"

text \<open>
  \<^verbatim>\<open>round(x, n)\<close> for \<open>0 \<le> n\<close>: the exact value of \<open>x\<close> is rounded to \<open>n\<close> decimal
  places, ties to even, and the decimal result converted back to the nearest float.
  Infinities and NaN are returned as they are.
\<close>

fun py_round_nd :: "pyfloat \<Rightarrow> nat \<Rightarrow> error + pyfloat" where
  "py_round_nd (Fin a) n =
     (case fl (of_int (rhe (a * 10 ^ n)) / 10 ^ n) of
        Fin r \<Rightarrow> Inr (Fin r)
      | _ \<Rightarrow> Inl OverflowError)"
| "py_round_nd x n = Inr x"

text \<open>\<^verbatim>\<open>max\<close> and \<^verbatim>\<open>min\<close> keep the first item and replace it by a strictly better one.\<close>

fun py_max :: "pyfloat list \<Rightarrow> error + pyfloat" where
  "py_max [] = Inl ValueError"
| "py_max (x # xs) = Inr (foldl (\<lambda>m y. if flt m y then y else m) x xs)"

fun py_min :: "pyfloat list \<Rightarrow> error + pyfloat" where
  "py_min [] = Inl ValueError"
| "py_min (x # xs) = Inr (foldl (\<lambda>m y. if flt y m then y else m) x xs)"

text \<open>
  \<^verbatim>\<open>sorted\<close>, as an insertion sort on \<^verbatim>\<open><\<close>. The engine sorts lists without NaN only
  (lemma \<open>sorted_inputs_no_nan\<close> below), where \<^verbatim>\<open><\<close> is a linear order and every sorting
  algorithm returns the same list of values: the items in ascending order (lemmas
  \<open>sorted_py_sorted\<close> and \<open>count_py_sorted\<close>).
\<close>

fun insort_f :: "pyfloat \<Rightarrow> pyfloat list \<Rightarrow> pyfloat list" where
  "insort_f x [] = [x]"
| "insort_f x (y # ys) = (if flt x y then x # y # ys else y # insort_f x ys)"

definition py_sorted :: "pyfloat list \<Rightarrow> pyfloat list" where
  "py_sorted xs = foldr insort_f xs []"

text \<open>\<^verbatim>\<open>statistics.median\<close>.\<close>

definition median :: "pyfloat list \<Rightarrow> error + pyfloat" where
  "median data =
     (let d = py_sorted data; n = length d in
      if n = 0 then Inl StatisticsError
      else if n mod 2 = 1 then Inr (d ! (n div 2))
      else let i = n div 2 in fdiv (fadd (d ! (i - 1)) (d ! i)) (Fin 2))"

section \<open>The data model\<close>

record point =
  physical_x :: int
  physical_y :: int
  logical_x :: int
  logical_y :: int
  label :: "string option"

text \<open>
  The persisted record, a JSON object. Keys that the engine's own records may lack
  (\<^verbatim>\<open>consistent\<close>, \<^verbatim>\<open>spread_x\<close>, \<^verbatim>\<open>spread_y\<close>, \<^verbatim>\<open>verification_notes\<close>, \<^verbatim>\<open>verified_at\<close>)
  and values that may be \<^verbatim>\<open>null\<close> (\<^verbatim>\<open>scale_x\<close>, \<^verbatim>\<open>scale_y\<close>, \<^verbatim>\<open>calibrated_at\<close>) are
  options. A timestamp is an instant in microseconds, the resolution of Python's
  \<^verbatim>\<open>datetime\<close>; its ISO text form is not modelled.
\<close>

record state =
  calibrated :: bool
  scale_x :: "pyfloat option"
  scale_y :: "pyfloat option"
  offset_x :: int
  offset_y :: int
  points :: "point list"
  calibrated_at :: "int option"
  verified :: bool
  consistent :: "bool option"
  spread_x :: "pyfloat option"
  spread_y :: "pyfloat option"
  verification_notes :: "string option"
  verified_at :: "int option"

text \<open>
  The state file: \<open>None\<close> while it does not exist. Writing a record as JSON and
  reading it back returns the record.
\<close>

type_synonym store = "state option"

definition default_state :: state where
  "default_state =
     \<lparr>calibrated = False, scale_x = None, scale_y = None, offset_x = 0, offset_y = 0,
      points = [], calibrated_at = None, verified = False, consistent = None,
      spread_x = None, spread_y = None, verification_notes = None, verified_at = None\<rparr>"

definition load_state :: "store \<Rightarrow> state" where
  "load_state s = (case s of Some st \<Rightarrow> st | None \<Rightarrow> default_state)"

definition save_state :: "state \<Rightarrow> store \<Rightarrow> store" where
  "save_state st s = Some st"

section \<open>The estimator: \<^verbatim>\<open>compute_calibration\<close>\<close>

text \<open>The loop over the points, appending a ratio per axis where the logical coordinate is not 0.\<close>

fun collect_scales ::
  "point list \<Rightarrow> pyfloat list \<Rightarrow> pyfloat list \<Rightarrow> error + (pyfloat list \<times> pyfloat list)" where
  "collect_scales [] sx sy = Inr (sx, sy)"
| "collect_scales (p # ps) sx sy =
     ebind (if logical_x p \<noteq> 0
            then ebind (int_truediv (physical_x p) (logical_x p)) (\<lambda>r. Inr (sx @ [r]))
            else Inr sx) (\<lambda>sx'.
     ebind (if logical_y p \<noteq> 0
            then ebind (int_truediv (physical_y p) (logical_y p)) (\<lambda>r. Inr (sy @ [r]))
            else Inr sy) (\<lambda>sy'.
     collect_scales ps sx' sy'))"

text \<open>\<^verbatim>\<open>(max(scales) - min(scales)) / scale if scale else 0\<close>\<close>

definition spread_of :: "pyfloat list \<Rightarrow> pyfloat \<Rightarrow> error + pyfloat" where
  "spread_of scales scale =
     (if truthy scale
      then ebind (py_max scales) (\<lambda>mx. ebind (py_min scales) (\<lambda>mn. fdiv (fsub mx mn) scale))
      else Inr (Fin 0))"

text \<open>
  \<^verbatim>\<open>[p[phys] - p[log] * scale for p in points if p[log] != 0]\<close>: the int \<^verbatim>\<open>p[log]\<close> is
  converted and multiplied, then the int \<^verbatim>\<open>p[phys]\<close> is converted and the product
  subtracted.
\<close>

fun offsets_of ::
  "(point \<Rightarrow> int) \<Rightarrow> (point \<Rightarrow> int) \<Rightarrow> pyfloat \<Rightarrow> point list \<Rightarrow> error + pyfloat list" where
  "offsets_of phys lgc scale [] = Inr []"
| "offsets_of phys lgc scale (p # ps) =
     (if lgc p \<noteq> 0
      then ebind (int_to_float (lgc p)) (\<lambda>l.
           ebind (int_to_float (phys p)) (\<lambda>ph.
           ebind (offsets_of phys lgc scale ps) (\<lambda>rest.
           Inr (fsub ph (fmul l scale) # rest))))
      else offsets_of phys lgc scale ps)"

text \<open>\<^verbatim>\<open>round(statistics.median(offsets)) if offsets else 0\<close>\<close>

definition offset_of :: "pyfloat list \<Rightarrow> error + int" where
  "offset_of offsets = (if offsets \<noteq> [] then ebind (median offsets) py_round else Inr 0)"

text \<open>The float literal \<^verbatim>\<open>0.02\<close>.\<close>

definition lit_0_02 :: pyfloat where
  "lit_0_02 = fl (2 / 100)"

text \<open>The body of \<^verbatim>\<open>compute_calibration\<close> up to the record it builds; \<open>now\<close> is the clock.\<close>

definition calibration_of :: "int \<Rightarrow> point list \<Rightarrow> error + state" where
  "calibration_of now pts =
     (if length pts < 2 then Inl InsufficientSamples
      else ebind (collect_scales pts [] []) (\<lambda>(scales_x, scales_y).
        if scales_x = [] \<or> scales_y = [] then Inl DegenerateInput
        else
          ebind (median scales_x) (\<lambda>sc_x.
          ebind (median scales_y) (\<lambda>sc_y.
          ebind (spread_of scales_x sc_x) (\<lambda>spr_x.
          ebind (spread_of scales_y sc_y) (\<lambda>spr_y.
          ebind (offsets_of physical_x logical_x sc_x pts) (\<lambda>offsets_x.
          ebind (offsets_of physical_y logical_y sc_y pts) (\<lambda>offsets_y.
          ebind (offset_of offsets_x) (\<lambda>off_x.
          ebind (offset_of offsets_y) (\<lambda>off_y.
          ebind (py_round_nd sc_x 6) (\<lambda>rsc_x.
          ebind (py_round_nd sc_y 6) (\<lambda>rsc_y.
          ebind (py_round_nd spr_x 4) (\<lambda>rspr_x.
          ebind (py_round_nd spr_y 4) (\<lambda>rspr_y.
          Inr \<lparr>calibrated = True,
               scale_x = Some rsc_x,
               scale_y = Some rsc_y,
               offset_x = off_x,
               offset_y = off_y,
               points = pts,
               calibrated_at = Some now,
               verified = False,
               consistent = Some (flt spr_x lit_0_02 \<and> flt spr_y lit_0_02),
               spread_x = Some rspr_x,
               spread_y = Some rspr_y,
               verification_notes = None,
               verified_at = None\<rparr>))))))))))))))"

text \<open>\<^verbatim>\<open>compute_calibration\<close>: the record is saved, then returned; an exception leaves the file as it was.\<close>

definition compute_calibration :: "int \<Rightarrow> point list \<Rightarrow> store \<Rightarrow> (error + state) \<times> store" where
  "compute_calibration now pts s =
     (case calibration_of now pts of
        Inl e \<Rightarrow> (Inl e, s)
      | Inr st \<Rightarrow> (Inr st, save_state st s))"

section \<open>Verification: \<^verbatim>\<open>mark_verified\<close>\<close>

definition mark_verified :: "int \<Rightarrow> bool \<Rightarrow> string \<Rightarrow> store \<Rightarrow> state \<times> store" where
  "mark_verified now success notes s =
     (let st = load_state s;
          st1 = st\<lparr>verified := success\<rparr>;
          st2 = st1\<lparr>verification_notes := Some notes\<rparr>;
          st3 = st2\<lparr>verified_at := Some now\<rparr>
      in (st3, save_state st3 s))"

section \<open>The converter\<close>

text \<open>\<^verbatim>\<open>n / scale\<close>, \<^verbatim>\<open>n * scale\<close> and \<^verbatim>\<open>x + n\<close> with an int \<open>n\<close> and a stored scale that may be \<^verbatim>\<open>None\<close>.\<close>

definition int_div_scale :: "int \<Rightarrow> pyfloat option \<Rightarrow> error + pyfloat" where
  "int_div_scale n sc =
     (case sc of None \<Rightarrow> Inl TypeError
      | Some f \<Rightarrow> ebind (int_to_float n) (\<lambda>x. fdiv x f))"

definition int_mul_scale :: "int \<Rightarrow> pyfloat option \<Rightarrow> error + pyfloat" where
  "int_mul_scale n sc =
     (case sc of None \<Rightarrow> Inl TypeError
      | Some f \<Rightarrow> ebind (int_to_float n) (\<lambda>x. Inr (fmul x f)))"

definition float_add_int :: "pyfloat \<Rightarrow> int \<Rightarrow> error + pyfloat" where
  "float_add_int x n = ebind (int_to_float n) (\<lambda>y. Inr (fadd x y))"

definition physical_to_logical :: "int \<Rightarrow> int \<Rightarrow> store \<Rightarrow> error + (int \<times> int)" where
  "physical_to_logical phys_x phys_y s =
     (let st = load_state s in
      if \<not> calibrated st then Inl NotCalibrated
      else
        ebind (int_div_scale (phys_x - offset_x st) (scale_x st)) (\<lambda>qx.
        ebind (py_round qx) (\<lambda>lx.
        ebind (int_div_scale (phys_y - offset_y st) (scale_y st)) (\<lambda>qy.
        ebind (py_round qy) (\<lambda>ly.
        Inr (lx, ly))))))"

definition logical_to_physical :: "int \<Rightarrow> int \<Rightarrow> store \<Rightarrow> error + (int \<times> int)" where
  "logical_to_physical log_x log_y s =
     (let st = load_state s in
      if \<not> calibrated st then Inl NotCalibrated
      else
        ebind (int_mul_scale log_x (scale_x st)) (\<lambda>mx.
        ebind (float_add_int mx (offset_x st)) (\<lambda>tx.
        ebind (py_round tx) (\<lambda>px.
        ebind (int_mul_scale log_y (scale_y st)) (\<lambda>my.
        ebind (float_add_int my (offset_y st)) (\<lambda>ty.
        ebind (py_round ty) (\<lambda>py.
        Inr (px, py))))))))"

section \<open>The status evaluator: \<^verbatim>\<open>check_calibration\<close>\<close>

datatype status = Missing | Stale | Unverified | Inconsistent | Ok

text \<open>The message of a result, with the values its text is formatted from.\<close>

datatype message =
    MsgMissing
  | MsgStale int
  | MsgUnverified
  | MsgInconsistent "pyfloat option" "pyfloat option"
  | MsgOk "pyfloat option" "pyfloat option"

record check_result =
  status :: status
  message :: message
  res_scales :: "(pyfloat option \<times> pyfloat option) option"
  action_needed :: bool

text \<open>\<^verbatim>\<open>timedelta(days=7)\<close> and one day, in microseconds.\<close>

definition seven_days :: int where
  "seven_days = 7 * 86400 * 1000000"

definition one_day :: int where
  "one_day = 86400 * 1000000"

text \<open>
  \<open>age\<close> is assigned only where \<^verbatim>\<open>calibrated_at\<close> is set; the stale branch reads it
  (\<^verbatim>\<open>age.days\<close>, the whole days of the difference, rounded down).
\<close>

definition check_calibration :: "int \<Rightarrow> store \<Rightarrow> error + check_result" where
  "check_calibration now s =
     (let st = load_state s in
      if \<not> calibrated st
      then Inr \<lparr>status = Missing, message = MsgMissing, res_scales = None, action_needed = True\<rparr>
      else
        let age = (case calibrated_at st of Some t \<Rightarrow> Some (now - t) | None \<Rightarrow> None);
            stale = (case age of Some a \<Rightarrow> seven_days < a | None \<Rightarrow> True);
            verif = verified st;
            consis = (case consistent st of Some c \<Rightarrow> c | None \<Rightarrow> True);
            scales = Some (scale_x st, scale_y st)
        in
          if stale
          then (case age of
                  None \<Rightarrow> Inl UnboundLocalError
                | Some a \<Rightarrow> Inr \<lparr>status = Stale, message = MsgStale (a div one_day),
                                 res_scales = scales, action_needed = True\<rparr>)
          else if \<not> verif
          then Inr \<lparr>status = Unverified, message = MsgUnverified,
                    res_scales = scales, action_needed = True\<rparr>
          else if \<not> consis
          then Inr \<lparr>status = Inconsistent, message = MsgInconsistent (spread_x st) (spread_y st),
                    res_scales = scales, action_needed = True\<rparr>
          else Inr \<lparr>status = Ok, message = MsgOk (scale_x st) (scale_y st),
                    res_scales = scales, action_needed = False\<rparr>)"

section \<open>Reachable stores\<close>

text \<open>
  The state file as the engine's own operations can leave it: absent at first, then
  rewritten by any sequence of \<^verbatim>\<open>compute_calibration\<close> and \<^verbatim>\<open>mark_verified\<close> calls, at
  any clock values and on any arguments.
\<close>

inductive reachable :: "store \<Rightarrow> bool" where
  init: "reachable None"
| estimate: "reachable s \<Longrightarrow> reachable (snd (compute_calibration now pts s))"
| verify: "reachable s \<Longrightarrow> reachable (snd (mark_verified now success notes s))"

section \<open>Definitions used to state the properties\<close>

text \<open>
  The ratios of one axis as the specification words them: the ratio physical / logical of
  every point whose logical coordinate on the axis is not 0, in the order of the points.
\<close>

definition spec_ratios ::
  "(point \<Rightarrow> int) \<Rightarrow> (point \<Rightarrow> int) \<Rightarrow> point list \<Rightarrow> (error + pyfloat) list" where
  "spec_ratios phys lgc pts =
     map (\<lambda>p. int_truediv (phys p) (lgc p)) (filter (\<lambda>p. lgc p \<noteq> 0) pts)"

text \<open>
  A finite float of magnitude at most \<open>B\<close>; a float that is special or at most the largest
  binary64 number; a float that is at least \<open>c\<close>.
\<close>

fun fbnd :: "rat \<Rightarrow> pyfloat \<Rightarrow> bool" where
  "fbnd B (Fin r) = (\<bar>r\<bar> \<le> B)"
| "fbnd B x = False"

fun in_range :: "pyfloat \<Rightarrow> bool" where
  "in_range (Fin r) = (\<bar>r\<bar> \<le> 2 ^ 1024 - 2 ^ 971)"
| "in_range x = True"

fun fge :: "rat \<Rightarrow> pyfloat \<Rightarrow> bool" where
  "fge c (Fin r) = (c \<le> r)"
| "fge c PInf = True"
| "fge c NInf = False"
| "fge c NaN = False"

section \<open>Example inputs\<close>

definition mk_point :: "int \<Rightarrow> int \<Rightarrow> int \<Rightarrow> int \<Rightarrow> point" where
  "mk_point px py lx ly =
     \<lparr>physical_x = px, physical_y = py, logical_x = lx, logical_y = ly, label = None\<rparr>"

text \<open>A persisted record that says \<^verbatim>\<open>"calibrated": true, "calibrated_at": null\<close>.\<close>

definition undated_record :: state where
  "undated_record =
     \<lparr>calibrated = True, scale_x = Some (Fin (3 / 2)), scale_y = Some (Fin (3 / 2)),
      offset_x = 0, offset_y = 0, points = [], calibrated_at = None, verified = True,
      consistent = Some True, spread_x = Some (Fin 0), spread_y = Some (Fin 0),
      verification_notes = None, verified_at = None\<rparr>"

text \<open>One point only; and two points whose logical x coordinate is 0.\<close>

definition one_point :: "point list" where
  "one_point = [mk_point 100 100 100 100]"

text \<open>The two points of the specification's example: ratios 1 and 2 on each axis.\<close>

definition spec_example_points :: "point list" where
  "spec_example_points = [mk_point 100 100 100 100, mk_point 200 200 100 100]"

definition zero_x_points :: "point list" where
  "zero_x_points = [mk_point 0 100 0 100, mk_point 0 200 0 200]"

text \<open>Two points of ratio 129/128 = 1.0078125, a number with seven decimal places.\<close>

definition seven_digit_points :: "point list" where
  "seven_digit_points = [mk_point 129 129 128 128, mk_point 129 129 128 128]"

text \<open>Two points with usable ratios on both axes, one coordinate beyond the float range.\<close>

definition huge_points :: "point list" where
  "huge_points = [mk_point (2 ^ 1024) 1 1 1, mk_point 1 1 1 1]"

text \<open>The screen origin, physical (0, 0), observed at logical (100, 100).\<close>

definition origin_points :: "point list" where
  "origin_points = [mk_point 0 0 100 100, mk_point 0 0 100 100]"

text \<open>Two points of ratio 1/4 on both axes.\<close>

definition quarter_points :: "point list" where
  "quarter_points = [mk_point 25 25 100 100, mk_point 50 50 200 200]"

text \<open>Two points on a monitor left of the primary one: negative x, ratio 1.5 on both axes.\<close>

definition left_monitor_points :: "point list" where
  "left_monitor_points = [mk_point (- 150) 300 (- 100) 200, mk_point (- 300) 150 (- 200) 100]"

section \<open>Evaluation rules\<close>

lemma floor_rat_numeral:
  "\<lfloor>numeral a / numeral b :: rat\<rfloor> = numeral a div numeral b"
  using floor_divide_of_int_eq [of "numeral a" "numeral b", where ?'a = rat] by simp

lemma floor_rat_neg_numeral:
  "\<lfloor>- (numeral a / numeral b) :: rat\<rfloor> = - numeral a div numeral b"
  using floor_divide_of_int_eq [of "- numeral a" "numeral b", where ?'a = rat] by simp

lemma floor_rat_one_numeral:
  "\<lfloor>1 / numeral b :: rat\<rfloor> = 1 div numeral b"
  using floor_divide_of_int_eq [of 1 "numeral b", where ?'a = rat] by simp

lemma floor_rat_neg_one_numeral:
  "\<lfloor>- (1 / numeral b) :: rat\<rfloor> = - 1 div numeral b"
  using floor_divide_of_int_eq [of "- 1" "numeral b", where ?'a = rat] by simp

lemmas fl_ev = fl_def fl_val_def fl_exp_def rhe_def pow2_def Let_def ilog2.simps
  floor_rat_numeral floor_rat_neg_numeral floor_rat_one_numeral floor_rat_neg_one_numeral

lemmas cal_eval = compute_calibration_def calibration_of_def ebind_def int_truediv_def
  int_to_float_def median_def py_sorted_def spread_of_def fsub_def offset_of_def lit_0_02_def
  save_state_def mk_point_def

section \<open>Rounding to an integer\<close>

lemma rhe_cases: "rhe x = \<lfloor>x\<rfloor> \<or> rhe x = \<lfloor>x\<rfloor> + 1"
  by (simp add: rhe_def Let_def)

lemma rhe_err: "\<bar>of_int (rhe x) - x\<bar> \<le> 1 / 2"
proof -
  have a: "of_int \<lfloor>x\<rfloor> \<le> x" by simp
  have b: "x < of_int \<lfloor>x\<rfloor> + 1" by linarith
  show ?thesis using a b by (auto simp add: rhe_def Let_def abs_le_iff)
qed

lemma rhe_of_int: "rhe (of_int n) = n"
  by (simp add: rhe_def)

lemma rhe_le_int: "x \<le> of_int n \<Longrightarrow> rhe x \<le> n"
proof -
  assume a: "x \<le> of_int n"
  have f: "\<lfloor>x\<rfloor> \<le> n" using a by (simp add: floor_le_iff)
  show ?thesis
  proof (cases "\<lfloor>x\<rfloor> = n")
    case True
    have "of_int \<lfloor>x\<rfloor> \<le> x" by simp
    then have "x = of_int n" using a True by simp
    then show ?thesis by (simp add: rhe_of_int)
  next
    case False
    then have "\<lfloor>x\<rfloor> + 1 \<le> n" using f by simp
    then show ?thesis using rhe_cases [of x] by auto
  qed
qed

lemma rhe_ge_int: "of_int n \<le> x \<Longrightarrow> n \<le> rhe x"
proof -
  assume "of_int n \<le> x"
  then have "n \<le> \<lfloor>x\<rfloor>" by (simp add: le_floor_iff)
  then show ?thesis using rhe_cases [of x] by auto
qed

lemma rhe_abs_le_int: "\<bar>x\<bar> \<le> of_int n \<Longrightarrow> \<bar>rhe x\<bar> \<le> n"
proof -
  assume a: "\<bar>x\<bar> \<le> of_int n"
  then have b: "x \<le> of_int n" and c: "of_int (- n) \<le> x" by (simp_all add: abs_le_iff)
  have "rhe x \<le> n" using b by (rule rhe_le_int)
  moreover have "- n \<le> rhe x" using c by (rule rhe_ge_int)
  ultimately show ?thesis by simp
qed

lemma rhe_lt_half: "x < of_int n + 1 / 2 \<Longrightarrow> rhe x \<le> n"
proof -
  assume a: "x < of_int n + 1 / 2"
  have "of_int (rhe x) - x \<le> 1 / 2" using rhe_err [of x] by linarith
  then have "(of_int (rhe x) :: rat) < of_int n + 1" using a by linarith
  then have "(of_int (rhe x) :: rat) < of_int (n + 1)" by simp
  then have "rhe x < n + 1" by (simp only: of_int_less_iff)
  then show ?thesis by simp
qed

lemma rhe_gt_half: "of_int n - 1 / 2 < x \<Longrightarrow> n \<le> rhe x"
proof -
  assume a: "of_int n - 1 / 2 < x"
  have "x - of_int (rhe x) \<le> 1 / 2" using rhe_err [of x] by linarith
  then have "(of_int (n - 1) :: rat) < of_int (rhe x)" using a by simp
  then have "n - 1 < rhe x" by (simp only: of_int_less_iff)
  then show ?thesis by simp
qed

subsection \<open>Powers of two and the binary exponent\<close>

lemma pow2_pos: "0 < pow2 e"
  by (simp add: pow2_def)

lemma pow2_nat: "pow2 (int n) = 2 ^ n"
  by (simp add: pow2_def)

lemma pow2_succ: "pow2 (e + 1) = 2 * pow2 e"
proof (cases "0 \<le> e")
  case True
  then show ?thesis by (simp add: pow2_def nat_add_distrib)
next
  case False
  then have "nat (- e) = Suc (nat (- (e + 1)))" by simp
  then show ?thesis using False by (simp add: pow2_def)
qed

lemma pow2_pred: "pow2 (e - 1) = pow2 e / 2"
  using pow2_succ [of "e - 1"] by simp

lemma pow2_add_nat: "pow2 (e + int n) = 2 ^ n * pow2 e"
proof (induction n)
  case 0
  show ?case by simp
next
  case (Suc n)
  have "e + int (Suc n) = (e + int n) + 1" by simp
  then have "pow2 (e + int (Suc n)) = pow2 ((e + int n) + 1)" by (rule arg_cong)
  also have "\<dots> = 2 * pow2 (e + int n)" by (rule pow2_succ)
  finally show ?case using Suc by simp
qed

lemma pow2_mono: "a \<le> b \<Longrightarrow> pow2 a \<le> pow2 b"
proof -
  assume "a \<le> b"
  then obtain n where b: "b = a + int n" by (metis zle_iff_zadd)
  have "(1::rat) \<le> 2 ^ n" by simp
  then have "1 * pow2 a \<le> 2 ^ n * pow2 a" using pow2_pos [of a]
    by (intro mult_right_mono) simp_all
  then have "pow2 a \<le> 2 ^ n * pow2 a" by simp
  then show ?thesis by (simp add: b pow2_add_nat)
qed

lemma pow2_less_imp: "pow2 a < pow2 b \<Longrightarrow> a < b"
  using pow2_mono [of b a] by (cases "a < b") auto

lemma ilog2_bounds: "0 < x \<Longrightarrow> pow2 (ilog2 x) \<le> x \<and> x < pow2 (ilog2 x + 1)"
proof (induction x rule: ilog2.induct)
  case (1 x)
  show ?case
  proof (cases "2 \<le> x")
    case True
    then have eq: "ilog2 x = ilog2 (x / 2) + 1" using "1.prems" ilog2.simps [of x] by simp
    have "pow2 (ilog2 (x / 2)) \<le> x / 2 \<and> x / 2 < pow2 (ilog2 (x / 2) + 1)"
      using "1.IH"(1) "1.prems" True by simp
    moreover have "pow2 (ilog2 x) = 2 * pow2 (ilog2 (x / 2))" by (simp only: eq pow2_succ)
    moreover have "pow2 (ilog2 x + 1) = 2 * pow2 (ilog2 (x / 2) + 1)" by (simp only: eq pow2_succ)
    ultimately show ?thesis by simp
  next
    case False
    show ?thesis
    proof (cases "x < 1")
      case True
      then have eq: "ilog2 x = ilog2 (x * 2) - 1" using "1.prems" False ilog2.simps [of x] by simp
      have "pow2 (ilog2 (x * 2)) \<le> x * 2 \<and> x * 2 < pow2 (ilog2 (x * 2) + 1)"
        using "1.IH"(2) "1.prems" True False by simp
      moreover have "pow2 (ilog2 x) = pow2 (ilog2 (x * 2)) / 2" by (simp only: eq pow2_pred)
      moreover have "pow2 (ilog2 x + 1) = pow2 (ilog2 (x * 2) + 1) / 2"
        using pow2_pred [of "ilog2 (x * 2) + 1"] by (simp add: eq)
      ultimately show ?thesis by simp
    next
      case nlt: False
      then have "ilog2 x = 0" using "1.prems" False ilog2.simps [of x] by simp
      then show ?thesis using nlt False by (simp add: pow2_def)
    qed
  qed
qed

lemma ilog2_le: "0 < x \<Longrightarrow> x \<le> pow2 m \<Longrightarrow> ilog2 x \<le> m"
proof -
  assume a: "0 < x" "x \<le> pow2 m"
  have "pow2 (ilog2 x) \<le> pow2 m" using ilog2_bounds [OF a(1)] a(2) by linarith
  show ?thesis
  proof (rule ccontr)
    assume "\<not> ilog2 x \<le> m"
    then have "m + 1 \<le> ilog2 x" by simp
    then have "pow2 (m + 1) \<le> pow2 (ilog2 x)" by (rule pow2_mono)
    then have "2 * pow2 m \<le> pow2 m" using \<open>pow2 (ilog2 x) \<le> pow2 m\<close> by (simp add: pow2_succ)
    then show False using pow2_pos [of m] by simp
  qed
qed

lemma ilog2_lt: "0 < x \<Longrightarrow> x < pow2 m \<Longrightarrow> ilog2 x < m"
proof -
  assume a: "0 < x" "x < pow2 m"
  have "pow2 (ilog2 x) < pow2 m" using ilog2_bounds [OF a(1)] a(2) by linarith
  then show ?thesis by (rule pow2_less_imp)
qed

lemma ilog2_ge: "pow2 m \<le> x \<Longrightarrow> m \<le> ilog2 x"
proof -
  assume a: "pow2 m \<le> x"
  have p: "0 < x" using a pow2_pos [of m] by linarith
  have "pow2 m < pow2 (ilog2 x + 1)" using ilog2_bounds [OF p] a by linarith
  then have "m < ilog2 x + 1" by (rule pow2_less_imp)
  then show ?thesis by simp
qed

section \<open>Rounding to binary64\<close>

subsection \<open>The rounding error\<close>

lemma fl_val_err: "\<bar>fl_val x - x\<bar> \<le> pow2 (fl_exp x - 52) / 2"
proof -
  define u where "u = pow2 (fl_exp x - 52)"
  have u: "0 < u" unfolding u_def by (rule pow2_pos)
  have "\<bar>of_int (rhe (x / u)) - x / u\<bar> * u \<le> (1 / 2) * u"
    using rhe_err [of "x / u"] u by (intro mult_right_mono) simp_all
  moreover have "\<bar>of_int (rhe (x / u)) - x / u\<bar> * u = \<bar>of_int (rhe (x / u)) * u - x\<bar>"
  proof -
    have "\<bar>of_int (rhe (x / u)) - x / u\<bar> * u = \<bar>(of_int (rhe (x / u)) - x / u) * u\<bar>"
      using u by (simp add: abs_mult)
    also have "(of_int (rhe (x / u)) - x / u) * u = of_int (rhe (x / u)) * u - x"
      using u by (simp add: algebra_simps)
    finally show ?thesis .
  qed
  ultimately show ?thesis by (simp add: fl_val_def u_def)
qed

lemma ilog2_zero: "ilog2 0 = 0"
  using ilog2.simps [of 0] by simp

lemma fl_exp_le:
  assumes "\<bar>x\<bar> \<le> pow2 m" "0 \<le> m"
  shows "fl_exp x \<le> m"
proof (cases "x = 0")
  case True
  then show ?thesis using assms by (simp add: fl_exp_def ilog2_zero)
next
  case False
  then have "ilog2 \<bar>x\<bar> \<le> m" using assms by (intro ilog2_le) simp_all
  then show ?thesis using assms by (simp add: fl_exp_def)
qed

lemma pow2_split: "e \<le> m \<Longrightarrow> pow2 m = 2 ^ nat (m - e) * pow2 e"
  using pow2_add_nat [of e "nat (m - e)"] by simp

lemma fl_val_abs_le:
  assumes "\<bar>x\<bar> \<le> pow2 m" "fl_exp x - 52 \<le> m"
  shows "\<bar>fl_val x\<bar> \<le> pow2 m"
proof -
  define u where "u = pow2 (fl_exp x - 52)"
  define k where "k = nat (m - (fl_exp x - 52))"
  have u: "0 < u" unfolding u_def by (rule pow2_pos)
  have pm: "pow2 m = 2 ^ k * u" unfolding u_def k_def using assms(2) by (rule pow2_split)
  have "\<bar>x / u\<bar> \<le> 2 ^ k" using assms(1) u by (simp add: pm field_simps)
  then have "\<bar>x / u\<bar> \<le> of_int (2 ^ k)" by simp
  then have "\<bar>rhe (x / u)\<bar> \<le> 2 ^ k" by (rule rhe_abs_le_int)
  then have "(of_int \<bar>rhe (x / u)\<bar> :: rat) \<le> of_int (2 ^ k)" by (simp only: of_int_le_iff)
  then have "\<bar>of_int (rhe (x / u))\<bar> * u \<le> 2 ^ k * u"
    using u by (intro mult_right_mono) simp_all
  then show ?thesis using u by (simp add: fl_val_def u_def [symmetric] pm abs_mult)
qed

lemma fl_error:
  assumes "\<bar>x\<bar> \<le> 2 ^ M" "M \<le> 1023"
  shows "\<exists>r. fl x = Fin r \<and> \<bar>r - x\<bar> \<le> 2 ^ M / 2 ^ 53 \<and> \<bar>r\<bar> \<le> 2 ^ M"
proof -
  have xm: "\<bar>x\<bar> \<le> pow2 (int M)" using assms(1) by (simp add: pow2_nat)
  have e: "fl_exp x \<le> int M" using xm by (rule fl_exp_le) simp
  have b: "\<bar>fl_val x\<bar> \<le> pow2 (int M)" using xm e by (intro fl_val_abs_le) simp_all
  have "(2::rat) ^ M \<le> 2 ^ 1023" using assms(2) by (intro power_increasing) simp_all
  then have lt: "\<bar>fl_val x\<bar> < 2 ^ 1024" using b by (simp add: pow2_nat)
  have "pow2 (fl_exp x - 52) \<le> pow2 (int M - 52)" using e by (intro pow2_mono) simp
  moreover have "pow2 (int M) = 2 ^ 52 * pow2 (int M - 52)"
    using pow2_add_nat [of "int M - 52" 52] by simp
  ultimately have "pow2 (fl_exp x - 52) / 2 \<le> 2 ^ M / 2 ^ 53" by (simp add: pow2_nat)
  then have "\<bar>fl_val x - x\<bar> \<le> 2 ^ M / 2 ^ 53" using fl_val_err [of x] by linarith
  moreover have "fl x = Fin (fl_val x)" using lt by (simp add: fl_def abs_less_iff)
  ultimately show ?thesis using b by (simp add: pow2_nat)
qed

lemma fl_int_exact:
  assumes "\<bar>n\<bar> < 2 ^ 53"
  shows "fl (of_int n) = Fin (of_int n)"
proof -
  define x :: rat where "x = of_int n"
  have ax: "\<bar>x\<bar> < 2 ^ 53"
  proof -
    have "(of_int \<bar>n\<bar> :: rat) < of_int (2 ^ 53)" using assms by (simp only: of_int_less_iff)
    then show ?thesis by (simp add: x_def)
  qed
  have e: "fl_exp x \<le> 52"
  proof (cases "x = 0")
    case True
    then show ?thesis by (simp add: fl_exp_def ilog2_zero)
  next
    case False
    have "\<bar>x\<bar> < pow2 53" using ax by (simp add: pow2_def)
    then have "ilog2 \<bar>x\<bar> < 53" using False by (intro ilog2_lt) simp_all
    then show ?thesis by (simp add: fl_exp_def)
  qed
  define u where "u = pow2 (fl_exp x - 52)"
  define k where "k = nat (0 - (fl_exp x - 52))"
  have u: "0 < u" unfolding u_def by (rule pow2_pos)
  have "pow2 0 = 2 ^ k * u" unfolding u_def k_def using e by (intro pow2_split) simp
  then have one: "2 ^ k * u = 1" by (simp add: pow2_def)
  then have "x / u = x * 2 ^ k" using u by (simp add: field_simps)
  also have "\<dots> = of_int (n * 2 ^ k)" by (simp add: x_def)
  finally have "rhe (x / u) = n * 2 ^ k" by (simp only: rhe_of_int)
  then have "fl_val x = of_int n * (2 ^ k * u)" by (simp add: fl_val_def u_def [symmetric])
  then have v: "fl_val x = x" by (simp add: one x_def)
  have "(2::rat) ^ 53 < 2 ^ 1024" by simp
  then have "\<bar>x\<bar> < 2 ^ 1024" using ax by linarith
  then show ?thesis using v by (simp add: fl_def x_def [symmetric] abs_less_iff)
qed

subsection \<open>Lower bounds, overflow and the largest float\<close>

lemma fl_lower:
  assumes "pow2 (- 1022) \<le> x"
  shows "fge (x * (1 - 1 / 2 ^ 53)) (fl x)"
proof -
  have xp: "0 < x" using assms pow2_pos [of "- 1022"] by linarith
  have ge: "- 1022 \<le> ilog2 x" using assms by (rule ilog2_ge)
  then have e: "fl_exp x = ilog2 x" using xp by (simp add: fl_exp_def)
  have px: "pow2 (fl_exp x) \<le> x" using ilog2_bounds [OF xp] by (simp add: e)
  have "pow2 (fl_exp x) = 2 ^ 52 * pow2 (fl_exp x - 52)"
    using pow2_add_nat [of "fl_exp x - 52" 52] by simp
  then have "pow2 (fl_exp x - 52) / 2 \<le> x / 2 ^ 53" using px by simp
  then have "x - x / 2 ^ 53 \<le> fl_val x" using fl_val_err [of x] by linarith
  then have lo: "x * (1 - 1 / 2 ^ 53) \<le> fl_val x" by (simp add: algebra_simps)
  have "0 < x * (1 - 1 / 2 ^ 53)" using xp by simp
  then have "0 < fl_val x" using lo by linarith
  then show ?thesis using lo by (simp add: fl_def)
qed

lemma fl_finite:
  assumes "\<bar>y\<bar> < 2 ^ 1024 - 2 ^ 970"
  shows "\<exists>r. fl y = Fin r"
proof (cases "\<bar>y\<bar> \<le> 2 ^ 1023")
  case True
  then show ?thesis using fl_error [of y 1023] by auto
next
  case False
  then have big: "pow2 1023 \<le> \<bar>y\<bar>" by (simp add: pow2_def)
  have "\<bar>y\<bar> < pow2 1024" using assms by (simp add: pow2_def)
  moreover have "0 < \<bar>y\<bar>" using big pow2_pos [of 1023] by linarith
  ultimately have "ilog2 \<bar>y\<bar> < 1024" by (intro ilog2_lt)
  moreover have "1023 \<le> ilog2 \<bar>y\<bar>" using big by (rule ilog2_ge)
  ultimately have e: "fl_exp y = 1023" by (simp add: fl_exp_def)
  define u :: rat where "u = 2 ^ 971"
  have u: "pow2 (fl_exp y - 52) = u" by (simp add: e pow2_def u_def)
  have up: "0 < u" by (simp add: u_def)
  have "\<bar>y\<bar> / u < (2 ^ 1024 - 2 ^ 970) / u" using assms up by (simp add: divide_strict_right_mono)
  also have "(2 ^ 1024 - 2 ^ 970) / u = of_int (2 ^ 53 - 1) + 1 / 2" by (simp add: u_def)
  finally have q: "\<bar>y / u\<bar> < of_int (2 ^ 53 - 1) + 1 / 2" using up by simp
  have "y / u < of_int (2 ^ 53 - 1) + 1 / 2" using q by linarith
  then have hi: "rhe (y / u) \<le> 2 ^ 53 - 1" by (rule rhe_lt_half)
  have "- (y / u) < of_int (2 ^ 53 - 1) + 1 / 2" using q by linarith
  then have "of_int (- (2 ^ 53 - 1)) - 1 / 2 < y / u" by (simp only: of_int_minus)
  then have lo: "- (2 ^ 53 - 1) \<le> rhe (y / u)" by (rule rhe_gt_half)
  have "(of_int (rhe (y / u)) :: rat) \<le> of_int (2 ^ 53 - 1)" using hi by (simp only: of_int_le_iff)
  then have "of_int (rhe (y / u)) * u \<le> of_int (2 ^ 53 - 1) * u"
    using up by (intro mult_right_mono) simp_all
  then have h: "fl_val y < 2 ^ 1024" by (simp add: fl_val_def u u_def)
  have "(of_int (- (2 ^ 53 - 1)) :: rat) \<le> of_int (rhe (y / u))" using lo by (simp only: of_int_le_iff)
  then have "of_int (- (2 ^ 53 - 1)) * u \<le> of_int (rhe (y / u)) * u"
    using up by (intro mult_right_mono) simp_all
  then have l: "- (2 ^ 1024) < fl_val y" by (simp add: fl_val_def u u_def)
  show ?thesis using h l by (simp add: fl_def)
qed

lemma fl_Fin_max:
  assumes "fl x = Fin r"
  shows "\<bar>r\<bar> \<le> 2 ^ 1024 - 2 ^ 971"
proof -
  have r: "r = fl_val x" and lt: "\<bar>fl_val x\<bar> < 2 ^ 1024"
    using assms by (auto simp add: fl_def split: if_splits)
  define u where "u = pow2 (fl_exp x - 52)"
  have up: "0 < u" unfolding u_def by (rule pow2_pos)
  define N where "N = rhe (x / u)"
  have v: "fl_val x = of_int N * u" by (simp add: fl_val_def u_def N_def)
  consider (small) "fl_exp x \<le> 1022" | (top) "fl_exp x = 1023" | (over) "1024 \<le> fl_exp x"
    by linarith
  then show ?thesis
  proof cases
    case small
    have "\<bar>x\<bar> \<le> pow2 (fl_exp x + 1)"
    proof (cases "x = 0")
      case True
      then show ?thesis using pow2_pos [of "fl_exp x + 1"] by simp
    next
      case False
      then have "\<bar>x\<bar> < pow2 (ilog2 \<bar>x\<bar> + 1)" using ilog2_bounds [of "\<bar>x\<bar>"] by simp
      moreover have "pow2 (ilog2 \<bar>x\<bar> + 1) \<le> pow2 (fl_exp x + 1)"
        by (intro pow2_mono) (simp add: fl_exp_def)
      ultimately show ?thesis by linarith
    qed
    then have "\<bar>fl_val x\<bar> \<le> pow2 (fl_exp x + 1)" by (intro fl_val_abs_le) simp_all
    moreover have "pow2 (fl_exp x + 1) \<le> pow2 1023" using small by (intro pow2_mono) simp
    moreover have "pow2 1023 \<le> 2 ^ 1024 - 2 ^ 971" by (simp add: pow2_def)
    ultimately show ?thesis using r by linarith
  next
    case top
    have u: "u = 2 ^ 971" by (simp add: u_def top pow2_def)
    have "\<bar>of_int N\<bar> * u < 2 ^ 53 * u" using lt up by (simp add: v abs_mult u)
    then have "(of_int \<bar>N\<bar> :: rat) < of_int (2 ^ 53)" using up by simp
    then have "\<bar>N\<bar> < 2 ^ 53" by (simp only: of_int_less_iff)
    then have "\<bar>N\<bar> \<le> 2 ^ 53 - 1" by simp
    then have "(of_int \<bar>N\<bar> :: rat) \<le> of_int (2 ^ 53 - 1)" by (simp only: of_int_le_iff)
    then have "of_int \<bar>N\<bar> * u \<le> of_int (2 ^ 53 - 1) * u" using up by (intro mult_right_mono) simp_all
    then show ?thesis using up by (simp add: r v abs_mult u)
  next
    case over
    then have ex: "fl_exp x = ilog2 \<bar>x\<bar>" by (simp add: fl_exp_def)
    have xn: "x \<noteq> 0" using over ex by (auto simp add: ilog2_zero)
    then have px: "pow2 (fl_exp x) \<le> \<bar>x\<bar>" using ilog2_bounds [of "\<bar>x\<bar>"] by (simp add: ex)
    have pe: "pow2 (fl_exp x) = 2 ^ 52 * u" unfolding u_def
      using pow2_add_nat [of "fl_exp x - 52" 52] by simp
    have q: "of_int (2 ^ 52) \<le> \<bar>x / u\<bar>" using px up by (simp add: pe field_simps)
    have "2 ^ 52 \<le> \<bar>N\<bar>"
    proof (cases "0 \<le> x")
      case True
      then have "of_int (2 ^ 52) \<le> x / u" using q up by simp
      then have "2 ^ 52 \<le> N" unfolding N_def by (rule rhe_ge_int)
      then show ?thesis by simp
    next
      case False
      then have "x / u \<le> of_int (- (2 ^ 52))" using q up by (simp add: abs_if divide_less_0_iff split: if_splits)
      then have "N \<le> - (2 ^ 52)" unfolding N_def by (rule rhe_le_int)
      then show ?thesis by simp
    qed
    then have "(of_int (2 ^ 52) :: rat) \<le> of_int \<bar>N\<bar>" by (simp only: of_int_le_iff)
    then have "of_int (2 ^ 52) * u \<le> of_int \<bar>N\<bar> * u" using up by (intro mult_right_mono) simp_all
    then have "pow2 (fl_exp x) \<le> \<bar>fl_val x\<bar>" using up by (simp add: pe v abs_mult)
    moreover have "pow2 1024 \<le> pow2 (fl_exp x)" using over by (intro pow2_mono)
    ultimately have "2 ^ 1024 \<le> \<bar>fl_val x\<bar>" by (simp add: pow2_def)
    then show ?thesis using lt by simp
  qed
qed

lemma fl_overflow:
  assumes "2 ^ 1024 \<le> x"
  shows "fl x = PInf"
proof -
  have px: "pow2 1024 \<le> x" using assms by (simp add: pow2_def)
  have xp: "0 < x" using px pow2_pos [of 1024] by linarith
  have ge: "1024 \<le> ilog2 x" using px by (rule ilog2_ge)
  then have e: "fl_exp x = ilog2 x" using xp by (simp add: fl_exp_def)
  define u where "u = pow2 (fl_exp x - 52)"
  have up: "0 < u" unfolding u_def by (rule pow2_pos)
  have pe: "pow2 (fl_exp x) = 2 ^ 52 * u" unfolding u_def
    using pow2_add_nat [of "fl_exp x - 52" 52] by simp
  have "pow2 (fl_exp x) \<le> x" using ilog2_bounds [OF xp] by (simp add: e)
  then have "of_int (2 ^ 52) \<le> x / u" using up by (simp add: pe field_simps)
  then have "2 ^ 52 \<le> rhe (x / u)" by (rule rhe_ge_int)
  then have "(of_int (2 ^ 52) :: rat) \<le> of_int (rhe (x / u))" by (simp only: of_int_le_iff)
  then have "of_int (2 ^ 52) * u \<le> of_int (rhe (x / u)) * u"
    using up by (intro mult_right_mono) simp_all
  then have "pow2 (fl_exp x) \<le> fl_val x" by (simp add: pe fl_val_def u_def)
  moreover have "pow2 1024 \<le> pow2 (fl_exp x)" using ge e by (intro pow2_mono) simp
  ultimately have "2 ^ 1024 \<le> fl_val x" by (simp add: pow2_def)
  then show ?thesis by (simp add: fl_def)
qed

subsection \<open>Operations on bounded floats\<close>

lemma fbnd_iff: "fbnd B f \<longleftrightarrow> (\<exists>r. f = Fin r \<and> \<bar>r\<bar> \<le> B)"
  by (cases f) simp_all

lemma fl_bnd:
  assumes "\<bar>x\<bar> \<le> 2 ^ M" "M \<le> 1023"
  shows "fbnd (2 ^ M) (fl x)"
  using fl_error [OF assms] by (auto simp add: fbnd_iff)

lemma fl_in_range: "in_range (fl x)"
proof (cases "fl x")
  case (Fin r)
  then show ?thesis using fl_Fin_max [OF Fin] by simp
qed simp_all

lemma fdiv_in_range: "fdiv x y = Inr f \<Longrightarrow> in_range f"
  by (cases x; cases y) (auto simp add: fl_in_range split: if_splits)

lemma fdiv_ok: "truthy y \<Longrightarrow> \<exists>f. fdiv x y = Inr f"
  by (cases x; cases y) simp_all

lemma int_ratio_le:
  assumes "l \<noteq> 0"
  shows "\<bar>of_int p / of_int l :: rat\<bar> \<le> \<bar>of_int p\<bar>"
proof -
  have "1 \<le> \<bar>l\<bar>" using assms by simp
  then have "(of_int 1 :: rat) \<le> of_int \<bar>l\<bar>" by (simp only: of_int_le_iff)
  then have l1: "(1::rat) \<le> \<bar>of_int l\<bar>" by simp
  have "\<bar>of_int p :: rat\<bar> * 1 \<le> \<bar>of_int p\<bar> * \<bar>of_int l\<bar>"
    using l1 by (intro mult_left_mono) simp_all
  then show ?thesis using l1 by (simp add: field_simps)
qed

lemma of_int_abs_le_pow:
  assumes "\<bar>n\<bar> \<le> 2 ^ M"
  shows "\<bar>of_int n :: rat\<bar> \<le> 2 ^ M"
proof -
  have "(of_int \<bar>n\<bar> :: rat) \<le> of_int (2 ^ M)" using assms by (simp only: of_int_le_iff)
  then show ?thesis by simp
qed

lemma int_truediv_bnd:
  assumes "l \<noteq> 0" "\<bar>p\<bar> \<le> 2 ^ M" "M \<le> 1023"
  shows "\<exists>r. int_truediv p l = Inr (Fin r) \<and> \<bar>r\<bar> \<le> 2 ^ M"
proof -
  have "\<bar>of_int p / of_int l :: rat\<bar> \<le> 2 ^ M"
    using int_ratio_le [OF assms(1), of p] of_int_abs_le_pow [OF assms(2)] by linarith
  then obtain r where "fl (of_int p / of_int l) = Fin r" "\<bar>r\<bar> \<le> 2 ^ M"
    using fl_error [of "of_int p / of_int l" M] assms(3) by auto
  then show ?thesis using assms(1) by (simp add: int_truediv_def)
qed

lemma int_to_float_bnd:
  assumes "\<bar>n\<bar> \<le> 2 ^ M" "M \<le> 1023"
  shows "\<exists>r. int_to_float n = Inr (Fin r) \<and> \<bar>r\<bar> \<le> 2 ^ M"
proof -
  obtain r where "fl (of_int n) = Fin r" "\<bar>r\<bar> \<le> 2 ^ M"
    using fl_error [of "of_int n" M] of_int_abs_le_pow [OF assms(1)] assms(2) by auto
  then show ?thesis by (simp add: int_to_float_def)
qed

subsection \<open>Sorting and the median\<close>

lemma set_insort_f: "set (insort_f x xs) = insert x (set xs)"
  by (induction xs) auto

lemma length_insort_f: "length (insort_f x xs) = Suc (length xs)"
  by (induction xs) auto

lemma set_py_sorted: "set (py_sorted xs) = set xs"
  by (induction xs) (simp_all add: py_sorted_def set_insort_f)

lemma length_py_sorted: "length (py_sorted xs) = length xs"
  by (induction xs) (simp_all add: py_sorted_def length_insort_f)

lemma py_sorted_Nil_iff: "py_sorted xs = [] \<longleftrightarrow> xs = []"
  using length_py_sorted [of xs] by (metis length_0_conv)

lemma py_sorted_nth_in: "i < length xs \<Longrightarrow> py_sorted xs ! i \<in> set xs"
  using nth_mem [of i "py_sorted xs"] by (simp add: length_py_sorted set_py_sorted)

text \<open>The median is an item of the data, or the halved sum of two items.\<close>

lemma median_cases:
  assumes "xs \<noteq> []"
  shows "(\<exists>a \<in> set xs. median xs = Inr a) \<or>
         (\<exists>a \<in> set xs. \<exists>b \<in> set xs. median xs = fdiv (fadd a b) (Fin 2))"
proof -
  define n where "n = length xs"
  have n: "0 < n" using assms by (simp add: n_def)
  show ?thesis
  proof (cases "n mod 2 = 1")
    case True
    have "n div 2 < length xs" using n by (simp add: n_def)
    then have "py_sorted xs ! (n div 2) \<in> set xs" by (rule py_sorted_nth_in)
    moreover have "median xs = Inr (py_sorted xs ! (n div 2))"
      using True n by (simp add: median_def length_py_sorted py_sorted_Nil_iff n_def Let_def)
    ultimately show ?thesis by auto
  next
    case False
    have "n div 2 - 1 < length xs" using n unfolding n_def by linarith
    then have a: "py_sorted xs ! (n div 2 - 1) \<in> set xs" by (rule py_sorted_nth_in)
    have "n div 2 < length xs" using n unfolding n_def by linarith
    then have b: "py_sorted xs ! (n div 2) \<in> set xs" by (rule py_sorted_nth_in)
    have "median xs = fdiv (fadd (py_sorted xs ! (n div 2 - 1)) (py_sorted xs ! (n div 2))) (Fin 2)"
      using False n by (simp add: median_def length_py_sorted py_sorted_Nil_iff n_def Let_def)
    then show ?thesis using a b by auto
  qed
qed

lemma median_bnd:
  assumes "xs \<noteq> []" "\<forall>x \<in> set xs. fbnd (2 ^ M) x" "M < 1023"
  shows "\<exists>r. median xs = Inr (Fin r) \<and> \<bar>r\<bar> \<le> 2 ^ M"
  using median_cases [OF assms(1)]
proof (elim disjE bexE)
  fix a assume "a \<in> set xs" "median xs = Inr a"
  then show ?thesis using assms(2) by (auto simp add: fbnd_iff)
next
  fix a b assume ab: "a \<in> set xs" "b \<in> set xs" and m: "median xs = fdiv (fadd a b) (Fin 2)"
  obtain ra where a: "a = Fin ra" "\<bar>ra\<bar> \<le> 2 ^ M"
    using ab(1) assms(2) fbnd_iff [of "2 ^ M" a] by blast
  obtain rb where b: "b = Fin rb" "\<bar>rb\<bar> \<le> 2 ^ M"
    using ab(2) assms(2) fbnd_iff [of "2 ^ M" b] by blast
  have "\<bar>ra + rb\<bar> \<le> 2 ^ Suc M" using a(2) b(2) by simp
  then obtain s where s: "fl (ra + rb) = Fin s" "\<bar>s\<bar> \<le> 2 ^ Suc M"
    using fl_error [of "ra + rb" "Suc M"] assms(3) by auto
  have "\<bar>s / 2\<bar> \<le> 2 ^ M" using s(2) by simp
  then obtain r where r: "fl (s / 2) = Fin r" "\<bar>r\<bar> \<le> 2 ^ M"
    using fl_error [of "s / 2" M] assms(3) by auto
  show ?thesis using m a(1) b(1) s(1) r by simp
qed

lemma py_round_nd_ok:
  assumes "in_range f"
  shows "\<exists>g. py_round_nd f n = Inr g"
proof (cases f)
  case (Fin a)
  define y where "y = of_int (rhe (a * 10 ^ n)) / (10 ^ n :: rat)"
  have p: "(1::rat) \<le> 10 ^ n" by simp
  have "\<bar>of_int (rhe (a * 10 ^ n)) - a * 10 ^ n\<bar> \<le> 1 / 2" by (rule rhe_err)
  then have "\<bar>of_int (rhe (a * 10 ^ n)) - a * 10 ^ n\<bar> / 10 ^ n \<le> (1 / 2) / 10 ^ n"
    by (intro divide_right_mono) simp_all
  moreover have "\<bar>of_int (rhe (a * 10 ^ n)) - a * 10 ^ n\<bar> / 10 ^ n = \<bar>y - a\<bar>"
  proof -
    have "y - a = (of_int (rhe (a * 10 ^ n)) - a * 10 ^ n) / 10 ^ n"
      by (simp add: y_def field_simps)
    then show ?thesis by (simp add: abs_divide)
  qed
  moreover have "(1 / 2) / (10 ^ n :: rat) \<le> 1 / 2" using p by (simp add: field_simps)
  ultimately have "\<bar>y - a\<bar> \<le> 1 / 2" by linarith
  moreover have "\<bar>a\<bar> \<le> 2 ^ 1024 - 2 ^ 971" using assms Fin by simp
  moreover have "(2::rat) ^ 1024 - 2 ^ 971 + 1 / 2 < 2 ^ 1024 - 2 ^ 970" by simp
  ultimately have "\<bar>y\<bar> < 2 ^ 1024 - 2 ^ 970" by linarith
  then obtain r where "fl y = Fin r" using fl_finite by blast
  then show ?thesis using Fin by (simp add: y_def)
qed simp_all

section \<open>The steps of the estimator\<close>

subsection \<open>The ratio loop\<close>

lemma collect_scales_spec:
  "collect_scales pts ax ay = Inr (sx, sy) \<Longrightarrow>
   \<exists>rx ry. sx = ax @ rx \<and> sy = ay @ ry \<and>
     map Inr rx = spec_ratios physical_x logical_x pts \<and>
     map Inr ry = spec_ratios physical_y logical_y pts"
proof (induction pts arbitrary: ax ay)
  case Nil
  then show ?case by (simp add: spec_ratios_def)
next
  case (Cons p ps)
  obtain ax' where ax': "(if logical_x p \<noteq> 0
            then ebind (int_truediv (physical_x p) (logical_x p)) (\<lambda>r. Inr (ax @ [r]))
            else Inr ax) = Inr ax'"
    using Cons.prems by (auto simp add: ebind_def split: sum.splits)
  obtain ay' where ay': "(if logical_y p \<noteq> 0
            then ebind (int_truediv (physical_y p) (logical_y p)) (\<lambda>r. Inr (ay @ [r]))
            else Inr ay) = Inr ay'"
    using Cons.prems ax' by (auto simp add: ebind_def split: sum.splits)
  have rest: "collect_scales ps ax' ay' = Inr (sx, sy)"
    using Cons.prems ax' ay' by (simp add: ebind_def)
  obtain rx ry where r: "sx = ax' @ rx" "sy = ay' @ ry"
      "map Inr rx = spec_ratios physical_x logical_x ps"
      "map Inr ry = spec_ratios physical_y logical_y ps"
    using Cons.IH [OF rest] by blast
  have x: "\<exists>qx. ax' = ax @ qx \<and> map Inr (qx @ rx) = spec_ratios physical_x logical_x (p # ps)"
    using ax' r(3) by (auto simp add: ebind_def spec_ratios_def split: if_splits sum.splits)
  have y: "\<exists>qy. ay' = ay @ qy \<and> map Inr (qy @ ry) = spec_ratios physical_y logical_y (p # ps)"
    using ay' r(4) by (auto simp add: ebind_def spec_ratios_def split: if_splits sum.splits)
  from x y r(1,2) show ?case by (metis append_assoc)
qed

lemma spec_ratios_Nil_iff: "spec_ratios phys lgc pts = [] \<longleftrightarrow> (\<forall>p \<in> set pts. lgc p = 0)"
  by (auto simp add: spec_ratios_def filter_empty_conv)

lemma collect_scales_ok:
  assumes "\<forall>p \<in> set pts. \<bar>physical_x p\<bar> \<le> 2 ^ M \<and> \<bar>physical_y p\<bar> \<le> 2 ^ M"
    and "M \<le> 1023"
    and "\<forall>x \<in> set ax. fbnd (2 ^ M) x" "\<forall>y \<in> set ay. fbnd (2 ^ M) y"
  shows "\<exists>sx sy. collect_scales pts ax ay = Inr (sx, sy) \<and>
           (\<forall>x \<in> set sx. fbnd (2 ^ M) x) \<and> (\<forall>y \<in> set sy. fbnd (2 ^ M) y)"
  using assms
proof (induction pts arbitrary: ax ay)
  case Nil
  then show ?case by simp
next
  case (Cons p ps)
  have px: "\<bar>physical_x p\<bar> \<le> 2 ^ M" and py: "\<bar>physical_y p\<bar> \<le> 2 ^ M"
    using Cons.prems(1) by simp_all
  obtain ax' where ax': "(if logical_x p \<noteq> 0
            then ebind (int_truediv (physical_x p) (logical_x p)) (\<lambda>r. Inr (ax @ [r]))
            else Inr ax) = Inr ax'" "\<forall>x \<in> set ax'. fbnd (2 ^ M) x"
  proof (cases "logical_x p = 0")
    case True
    then show ?thesis using that [of ax] Cons.prems(3) by simp
  next
    case False
    obtain r where "int_truediv (physical_x p) (logical_x p) = Inr (Fin r)" "\<bar>r\<bar> \<le> 2 ^ M"
      using int_truediv_bnd [OF False px Cons.prems(2)] by blast
    then show ?thesis using that [of "ax @ [Fin r]"] False Cons.prems(3)
      by (simp add: ebind_def)
  qed
  obtain ay' where ay': "(if logical_y p \<noteq> 0
            then ebind (int_truediv (physical_y p) (logical_y p)) (\<lambda>r. Inr (ay @ [r]))
            else Inr ay) = Inr ay'" "\<forall>y \<in> set ay'. fbnd (2 ^ M) y"
  proof (cases "logical_y p = 0")
    case True
    then show ?thesis using that [of ay] Cons.prems(4) by simp
  next
    case False
    obtain r where "int_truediv (physical_y p) (logical_y p) = Inr (Fin r)" "\<bar>r\<bar> \<le> 2 ^ M"
      using int_truediv_bnd [OF False py Cons.prems(2)] by blast
    then show ?thesis using that [of "ay @ [Fin r]"] False Cons.prems(4)
      by (simp add: ebind_def)
  qed
  have "\<forall>p \<in> set ps. \<bar>physical_x p\<bar> \<le> 2 ^ M \<and> \<bar>physical_y p\<bar> \<le> 2 ^ M"
    using Cons.prems(1) by simp
  from Cons.IH [OF this Cons.prems(2) ax'(2) ay'(2)]
  show ?case using ax'(1) ay'(1) by (simp add: ebind_def)
qed

subsection \<open>Spread and offsets\<close>

lemma py_max_ok: "xs \<noteq> [] \<Longrightarrow> \<exists>m. py_max xs = Inr m"
  by (cases xs) simp_all

lemma py_min_ok: "xs \<noteq> [] \<Longrightarrow> \<exists>m. py_min xs = Inr m"
  by (cases xs) simp_all

lemma spread_of_ok:
  assumes "scales \<noteq> []"
  shows "\<exists>f. spread_of scales sc = Inr f \<and> in_range f"
proof (cases "truthy sc")
  case True
  obtain mx where mx: "py_max scales = Inr mx" using py_max_ok [OF assms] by blast
  obtain mn where mn: "py_min scales = Inr mn" using py_min_ok [OF assms] by blast
  obtain f where f: "fdiv (fsub mx mn) sc = Inr f" using fdiv_ok [OF True] by blast
  then have "in_range f" by (rule fdiv_in_range)
  then show ?thesis using True mx mn f by (simp add: spread_of_def ebind_def)
next
  case False
  then show ?thesis by (simp add: spread_of_def)
qed

lemma offsets_of_ok:
  assumes "\<forall>p \<in> set pts. \<bar>phys p\<bar> \<le> 2 ^ K \<and> \<bar>lgc p\<bar> \<le> 2 ^ K"
    and "\<bar>s\<bar> \<le> 2 ^ K" and "2 * K + 1 \<le> 1023"
  shows "\<exists>os. offsets_of phys lgc (Fin s) pts = Inr os \<and>
           (\<forall>x \<in> set os. fbnd (2 ^ (2 * K + 1)) x)"
  using assms(1)
proof (induction pts)
  case Nil
  then show ?case by simp
next
  case (Cons p ps)
  obtain os where os: "offsets_of phys lgc (Fin s) ps = Inr os"
      "\<forall>x \<in> set os. fbnd (2 ^ (2 * K + 1)) x"
    using Cons by auto
  show ?case
  proof (cases "lgc p = 0")
    case True
    then show ?thesis using os by simp
  next
    case False
    have k: "K \<le> 1023" using assms(3) by simp
    have bp: "\<bar>phys p\<bar> \<le> 2 ^ K" and bl: "\<bar>lgc p\<bar> \<le> 2 ^ K" using Cons.prems by simp_all
    obtain l where l: "int_to_float (lgc p) = Inr (Fin l)" "\<bar>l\<bar> \<le> 2 ^ K"
      using int_to_float_bnd [OF bl k] by blast
    obtain ph where ph: "int_to_float (phys p) = Inr (Fin ph)" "\<bar>ph\<bar> \<le> 2 ^ K"
      using int_to_float_bnd [OF bp k] by blast
    have "\<bar>l * s\<bar> \<le> 2 ^ K * 2 ^ K"
      using l(2) assms(2) by (simp add: abs_mult mult_mono)
    then have ls: "\<bar>l * s\<bar> \<le> 2 ^ (2 * K)" by (simp add: power_add [symmetric] mult_2)
    obtain m where m: "fl (l * s) = Fin m" "\<bar>m\<bar> \<le> 2 ^ (2 * K)"
      using fl_error [OF ls] assms(3) by auto
    have c: "(2::rat) ^ K \<le> 2 ^ (2 * K)" by (intro power_increasing) simp_all
    have d: "(2::rat) ^ (2 * K + 1) = 2 * 2 ^ (2 * K)" by simp
    have "\<bar>ph + - m\<bar> \<le> 2 ^ (2 * K + 1)" using ph(2) m(2) c unfolding d by linarith
    then have "fbnd (2 ^ (2 * K + 1)) (fl (ph + - m))" using assms(3) by (intro fl_bnd) simp_all
    then show ?thesis using False os l(1) ph(1) m(1) by (simp add: ebind_def fsub_def)
  qed
qed

lemma offset_of_ok:
  assumes "\<forall>x \<in> set os. fbnd (2 ^ M) x" "M < 1023"
  shows "\<exists>n. offset_of os = Inr n"
proof (cases "os = []")
  case True
  then show ?thesis by (simp add: offset_of_def)
next
  case False
  obtain r where "median os = Inr (Fin r)" using median_bnd [OF False assms] by blast
  then show ?thesis using False by (simp add: offset_of_def ebind_def)
qed

section \<open>The lists that are sorted hold no NaN\<close>

lemma rhe_minus: "rhe (- x) = - rhe x"
proof (cases "x = of_int \<lfloor>x\<rfloor>")
  case True
  then obtain n where n: "x = of_int n" by blast
  have "rhe (- of_int n) = - n" using rhe_of_int [of "- n"] by simp
  then show ?thesis by (simp add: n rhe_of_int)
next
  case False
  define f where "f = \<lfloor>x\<rfloor>"
  define d where "d = x - of_int f"
  have d0: "0 < d" using False unfolding d_def f_def
    by (metis diff_gt_0_iff_gt of_int_floor_le order_le_less)
  have d1: "d < 1" unfolding d_def f_def by linarith
  have fl: "\<lfloor>- x\<rfloor> = - f - 1"
  proof (rule floor_unique)
    show "of_int (- f - 1) \<le> - x" using d1 by (simp add: d_def)
    show "- x < of_int (- f - 1) + 1" using d0 by (simp add: d_def)
  qed
  have dm: "- x - of_int (- f - 1) = 1 - d" by (simp add: d_def)
  have a: "rhe x = (if d < 1 / 2 then f else if 1 / 2 < d then f + 1 else if even f then f else f + 1)"
    unfolding rhe_def Let_def f_def [symmetric] d_def [symmetric] by (rule refl)
  have b: "rhe (- x) = (if 1 - d < 1 / 2 then - f - 1 else if 1 / 2 < 1 - d then - f - 1 + 1
      else if even (- f - 1) then - f - 1 else - f - 1 + 1)"
    unfolding rhe_def Let_def fl dm by (rule refl)
  consider (lt) "d < 1 / 2" | (gt) "1 / 2 < d" | (eq) "d = 1 / 2" by linarith
  then show ?thesis
  proof cases
    case lt
    then have c1: "\<not> 1 - d < 1 / 2" by linarith
    from lt have c2: "1 / 2 < 1 - d" by linarith
    show ?thesis using lt c1 c2 by (simp only: a b if_True if_False; simp)
  next
    case gt
    then have c1: "1 - d < 1 / 2" by linarith
    from gt have c2: "\<not> d < 1 / 2" by linarith
    show ?thesis using gt c1 c2 by (simp only: a b if_True if_False; simp)
  next
    case eq
    then have c: "\<not> 1 - d < 1 / 2" "\<not> 1 / 2 < 1 - d" "\<not> d < 1 / 2" "\<not> 1 / 2 < d" by simp_all
    show ?thesis by (simp only: a b c if_False; simp)
  qed
qed

lemma fl_exp_minus: "fl_exp (- x) = fl_exp x"
  by (simp add: fl_exp_def)

lemma fl_val_minus: "fl_val (- x) = - fl_val x"
  by (simp add: fl_val_def fl_exp_minus rhe_minus)

lemma fl_minus: "fl (- x) = fneg (fl x)"
proof -
  have p: "(0::rat) < 2 ^ 1024" by simp
  show ?thesis using p by (auto simp add: fl_def fl_val_minus simp del: zero_less_power)
qed

lemma fl_not_nan: "fl x \<noteq> NaN"
  by (simp add: fl_def)

lemma int_truediv_Fin:
  assumes "int_truediv p l = Inr f"
  shows "\<exists>r. f = Fin r"
proof -
  have l: "l \<noteq> 0" using assms by (auto simp add: int_truediv_def split: if_splits)
  show ?thesis
  proof (cases "fl (of_int p / of_int l)")
    case (Fin r)
    then have "int_truediv p l = Inr (Fin r)" using l by (simp add: int_truediv_def)
    then have "f = Fin r" using assms by simp
    then show ?thesis by blast
  next
    case PInf
    then have "int_truediv p l = Inl OverflowError" using l by (simp add: int_truediv_def)
    then show ?thesis using assms by simp
  next
    case NInf
    then have "int_truediv p l = Inl OverflowError" using l by (simp add: int_truediv_def)
    then show ?thesis using assms by simp
  next
    case NaN
    then show ?thesis using fl_not_nan by blast
  qed
qed

lemma int_to_float_Fin:
  assumes "int_to_float n = Inr f"
  shows "\<exists>r. f = Fin r \<and> fl (of_int n) = Fin r"
proof (cases "fl (of_int n)")
  case (Fin r)
  then have "int_to_float n = Inr (Fin r)" by (simp add: int_to_float_def)
  then have "f = Fin r" using assms by simp
  then show ?thesis using Fin by blast
next
  case PInf
  then have "int_to_float n = Inl OverflowError" by (simp add: int_to_float_def)
  then show ?thesis using assms by simp
next
  case NInf
  then have "int_to_float n = Inl OverflowError" by (simp add: int_to_float_def)
  then show ?thesis using assms by simp
next
  case NaN
  then show ?thesis using fl_not_nan by blast
qed

lemma spec_ratios_mem:
  assumes "Inr f \<in> set (spec_ratios phys lgc pts)"
  shows "\<exists>p \<in> set pts. lgc p \<noteq> 0 \<and> int_truediv (phys p) (lgc p) = Inr f"
proof -
  have "Inr f \<in> (\<lambda>p. int_truediv (phys p) (lgc p)) ` set (filter (\<lambda>p. lgc p \<noteq> 0) pts)"
    using assms by (simp add: spec_ratios_def)
  then obtain p :: point where p: "Inr f = int_truediv (phys p) (lgc p)"
      "p \<in> set (filter (\<lambda>p. lgc p \<noteq> 0) pts)"
    by (rule imageE)
  have "p \<in> set pts" "lgc p \<noteq> 0" using p(2) by simp_all
  then show ?thesis using p(1) [symmetric] by blast
qed

lemma collect_scales_finite:
  assumes "collect_scales pts [] [] = Inr (sx, sy)"
  shows "(\<forall>x \<in> set sx. \<exists>r. x = Fin r) \<and> (\<forall>y \<in> set sy. \<exists>r. y = Fin r)"
proof -
  have sp: "map Inr sx = spec_ratios physical_x logical_x pts"
      "map Inr sy = spec_ratios physical_y logical_y pts"
    using collect_scales_spec [OF assms] by auto
  have "\<exists>r. x = Fin r" if "x \<in> set sx" for x
  proof -
    have "(Inr x :: error + pyfloat) \<in> set (map Inr sx)" using that by simp
    then have "Inr x \<in> set (spec_ratios physical_x logical_x pts)" unfolding sp(1) .
    then obtain p :: point where "int_truediv (physical_x p) (logical_x p) = Inr x"
      using spec_ratios_mem [of x physical_x logical_x pts] by blast
    then show ?thesis by (rule int_truediv_Fin)
  qed
  moreover have "\<exists>r. y = Fin r" if "y \<in> set sy" for y
  proof -
    have "(Inr y :: error + pyfloat) \<in> set (map Inr sy)" using that by simp
    then have "Inr y \<in> set (spec_ratios physical_y logical_y pts)" unfolding sp(2) .
    then obtain p :: point where "int_truediv (physical_y p) (logical_y p) = Inr y"
      using spec_ratios_mem [of y physical_y logical_y pts] by blast
    then show ?thesis by (rule int_truediv_Fin)
  qed
  ultimately show ?thesis by blast
qed

lemma median_not_nan:
  assumes "xs \<noteq> []" "\<forall>x \<in> set xs. \<exists>r. x = Fin r" "median xs = Inr m"
  shows "m \<noteq> NaN"
  using median_cases [OF assms(1)]
proof (elim disjE bexE)
  fix a assume "a \<in> set xs" "median xs = Inr a"
  then show ?thesis using assms(2,3) by auto
next
  fix a b assume ab: "a \<in> set xs" "b \<in> set xs" and md: "median xs = fdiv (fadd a b) (Fin 2)"
  obtain ra rb where r: "a = Fin ra" "b = Fin rb" using ab assms(2) by blast
  have "fdiv (fl (ra + rb)) (Fin 2) = Inr m" using md assms(3) r by simp
  then show ?thesis by (cases "fl (ra + rb)") (auto simp add: fl_not_nan)
qed

lemma fl_of_int_nonzero:
  assumes "n \<noteq> 0"
  shows "fl (of_int n) \<noteq> Fin 0"
proof -
  have pos: "fl (of_int k) \<noteq> Fin 0" if "0 < k" for k :: int
  proof -
    have "1 \<le> k" using that by simp
    then have "(of_int 1 :: rat) \<le> of_int k" by (simp only: of_int_le_iff)
    then have k1: "(1 :: rat) \<le> of_int k" by simp
    have "pow2 (- 1022) \<le> 1" by (simp add: pow2_def)
    then have "pow2 (- 1022) \<le> of_int k" using k1 by linarith
    then have g: "fge (of_int k * (1 - 1 / 2 ^ 53)) (fl (of_int k))" by (rule fl_lower)
    have "(0::rat) < of_int k * (1 - 1 / 2 ^ 53)" using k1 by simp
    then show ?thesis using g by (cases "fl (of_int k)") auto
  qed
  show ?thesis
  proof (cases "0 < n")
    case True
    then show ?thesis by (rule pos)
  next
    case False
    then have "0 < - n" using assms by simp
    then have "fl (of_int (- n)) \<noteq> Fin 0" by (rule pos)
    moreover have "fl (of_int n) = fneg (fl (of_int (- n)))"
      using fl_minus [of "of_int (- n)"] by simp
    ultimately show ?thesis by (cases "fl (of_int (- n))") auto
  qed
qed

lemma offset_term_not_nan:
  assumes "l \<noteq> 0" "sc \<noteq> NaN"
  shows "fsub (Fin ph) (fmul (Fin l) sc) \<noteq> NaN"
proof (cases sc)
  case (Fin s)
  then show ?thesis by (cases "fl (l * s)") (simp_all add: fsub_def fl_not_nan)
next
  case PInf
  then show ?thesis using assms(1) by (simp add: fsub_def Let_def)
next
  case NInf
  then show ?thesis using assms(1) by (simp add: fsub_def Let_def)
next
  case NaN
  then show ?thesis using assms(2) by simp
qed

lemma offsets_of_no_nan:
  assumes "sc \<noteq> NaN"
  shows "offsets_of phys lgc sc pts = Inr os \<Longrightarrow> NaN \<notin> set os"
proof (induction pts arbitrary: os)
  case Nil
  then show ?case by simp
next
  case (Cons p ps)
  show ?case
  proof (cases "lgc p = 0")
    case True
    then show ?thesis using Cons by simp
  next
    case False
    obtain l ph rest where s: "int_to_float (lgc p) = Inr l" "int_to_float (phys p) = Inr ph"
        "offsets_of phys lgc sc ps = Inr rest" "os = fsub ph (fmul l sc) # rest"
      using Cons.prems False by (auto simp add: ebind_def split: sum.splits)
    obtain rl where rl0: "l = Fin rl" "fl (of_int (lgc p)) = Fin rl"
      using int_to_float_Fin [OF s(1)] by blast
    have rl: "l = Fin rl" "rl \<noteq> 0" using rl0 fl_of_int_nonzero [OF False] by auto
    obtain rp where rp: "ph = Fin rp"
      using int_to_float_Fin [OF s(2)] by blast
    have "fsub ph (fmul l sc) \<noteq> NaN" unfolding rl(1) rp using rl(2) assms
      by (rule offset_term_not_nan)
    moreover have "NaN \<notin> set rest" using s(3) by (rule Cons.IH)
    ultimately show ?thesis using s(4) by auto
  qed
qed

text \<open>
  On a list without NaN, \<open>py_sorted\<close> returns the items of the list, each as often as it
  occurs, in ascending order.
\<close>

lemma flt_total: "a \<noteq> NaN \<Longrightarrow> b \<noteq> NaN \<Longrightarrow> flt a b \<or> flt b a \<or> a = b"
  by (cases a; cases b) auto

lemma flt_trans: "flt a b \<Longrightarrow> flt b c \<Longrightarrow> flt a c"
  by (cases a; cases b; cases c) auto

lemma flt_asym: "flt a b \<Longrightarrow> \<not> flt b a"
  by (cases a; cases b) auto

lemma sorted_insort_f:
  assumes "x \<noteq> NaN" "NaN \<notin> set ys" "sorted_wrt (\<lambda>a b. \<not> flt b a) ys"
  shows "sorted_wrt (\<lambda>a b. \<not> flt b a) (insort_f x ys)"
  using assms
proof (induction ys)
  case Nil
  then show ?case by simp
next
  case (Cons y ys)
  show ?case
  proof (cases "flt x y")
    case True
    have "\<not> flt z x" if "z \<in> set (y # ys)" for z
    proof
      assume zx: "flt z x"
      then have "flt z y" using True by (rule flt_trans)
      then show False using that Cons.prems(3) flt_asym [of z y] by auto
    qed
    then show ?thesis using True Cons.prems(3) by simp
  next
    case False
    have "sorted_wrt (\<lambda>a b. \<not> flt b a) (insort_f x ys)"
      using Cons by simp
    moreover have "\<forall>z \<in> set (insort_f x ys). \<not> flt z y"
      using False Cons.prems(3) by (auto simp add: set_insort_f)
    ultimately show ?thesis using False by simp
  qed
qed

lemma sorted_py_sorted:
  "NaN \<notin> set xs \<Longrightarrow> sorted_wrt (\<lambda>a b. \<not> flt b a) (py_sorted xs)"
proof (induction xs)
  case Nil
  then show ?case by (simp add: py_sorted_def)
next
  case (Cons x xs)
  have "sorted_wrt (\<lambda>a b. \<not> flt b a) (insort_f x (py_sorted xs))"
    using Cons by (intro sorted_insort_f) (auto simp add: set_py_sorted)
  then show ?case by (simp add: py_sorted_def)
qed

lemma count_insort_f: "count_list (insort_f x ys) z = count_list (x # ys) z"
  by (induction ys) auto

lemma count_py_sorted: "count_list (py_sorted xs) z = count_list xs z"
  by (induction xs) (simp_all add: py_sorted_def count_insort_f)

lemma sorted_inputs_no_nan:
  assumes "collect_scales pts [] [] = Inr (sx, sy)" "sx \<noteq> []" "median sx = Inr mx"
    and "offsets_of phys lgc mx pts = Inr os"
  shows "NaN \<notin> set sx \<and> NaN \<notin> set sy \<and> NaN \<notin> set os"
proof -
  have f: "(\<forall>x \<in> set sx. \<exists>r. x = Fin r) \<and> (\<forall>y \<in> set sy. \<exists>r. y = Fin r)"
    using assms(1) by (rule collect_scales_finite)
  then have "mx \<noteq> NaN" using assms(2,3) median_not_nan by blast
  then have "NaN \<notin> set os" using assms(4) by (rule offsets_of_no_nan)
  moreover have "NaN \<notin> set sx" "NaN \<notin> set sy" using f by auto
  ultimately show ?thesis by simp
qed

section \<open>Evaluations\<close>

lemma spec_example_eval:
  "fst (compute_calibration now spec_example_points s) =
     Inr \<lparr>calibrated = True, scale_x = Some (Fin (3 / 2)), scale_y = Some (Fin (3 / 2)),
          offset_x = 0, offset_y = 0, points = spec_example_points, calibrated_at = Some now,
          verified = False, consistent = Some False,
          spread_x = Some (Fin (6005099743135819 / 9007199254740992)),
          spread_y = Some (Fin (6005099743135819 / 9007199254740992)),
          verification_notes = None, verified_at = None\<rparr>"
  by (simp add: spec_example_points_def cal_eval fl_ev)

lemma seven_digit_eval:
  "fst (compute_calibration now seven_digit_points s) =
     Inr \<lparr>calibrated = True, scale_x = Some (Fin (2269390873829757 / 2251799813685248)),
          scale_y = Some (Fin (2269390873829757 / 2251799813685248)),
          offset_x = 0, offset_y = 0, points = seven_digit_points, calibrated_at = Some now,
          verified = False, consistent = Some True,
          spread_x = Some (Fin 0),
          spread_y = Some (Fin 0),
          verification_notes = None, verified_at = None\<rparr>"
  by (simp add: seven_digit_points_def cal_eval fl_ev)

lemma seven_digit_median: "median [Fin (129 / 128), Fin (129 / 128)] = Inr (Fin (129 / 128))"
  by (simp add: cal_eval fl_ev)

lemma origin_eval:
  "compute_calibration now origin_points s =
     (Inr \<lparr>calibrated = True, scale_x = Some (Fin 0), scale_y = Some (Fin 0),
          offset_x = 0, offset_y = 0, points = origin_points, calibrated_at = Some now,
          verified = False, consistent = Some True,
          spread_x = Some (Fin 0), spread_y = Some (Fin 0),
          verification_notes = None, verified_at = None\<rparr>,
      Some \<lparr>calibrated = True, scale_x = Some (Fin 0), scale_y = Some (Fin 0),
          offset_x = 0, offset_y = 0, points = origin_points, calibrated_at = Some now,
          verified = False, consistent = Some True,
          spread_x = Some (Fin 0), spread_y = Some (Fin 0),
          verification_notes = None, verified_at = None\<rparr>)"
  by (simp add: origin_points_def cal_eval fl_ev)

lemma quarter_eval:
  "compute_calibration now quarter_points s =
     (Inr \<lparr>calibrated = True, scale_x = Some (Fin (1 / 4)), scale_y = Some (Fin (1 / 4)),
          offset_x = 0, offset_y = 0, points = quarter_points, calibrated_at = Some now,
          verified = False, consistent = Some True,
          spread_x = Some (Fin 0), spread_y = Some (Fin 0),
          verification_notes = None, verified_at = None\<rparr>,
      Some \<lparr>calibrated = True, scale_x = Some (Fin (1 / 4)), scale_y = Some (Fin (1 / 4)),
          offset_x = 0, offset_y = 0, points = quarter_points, calibrated_at = Some now,
          verified = False, consistent = Some True,
          spread_x = Some (Fin 0), spread_y = Some (Fin 0),
          verification_notes = None, verified_at = None\<rparr>)"
  by (simp add: quarter_points_def cal_eval fl_ev)

lemmas conv_eval = physical_to_logical_def logical_to_physical_def int_div_scale_def
  int_mul_scale_def float_add_int_def int_to_float_def ebind_def load_state_def

lemma not_calibrated_iff_p2l:
  "physical_to_logical px py s = Inl NotCalibrated \<longleftrightarrow> \<not> calibrated (load_state s)"
proof (cases "calibrated (load_state s)")
  case False
  then show ?thesis by (simp add: physical_to_logical_def)
next
  case True
  have a: "\<And>n sc. int_div_scale n sc \<noteq> Inl NotCalibrated"
  proof -
    fix n sc
    have f: "\<And>x y. fdiv x y \<noteq> Inl NotCalibrated"
    proof -
      fix x y show "fdiv x y \<noteq> Inl NotCalibrated"
        by (cases x; cases y) (simp_all split: if_splits)
    qed
    show "int_div_scale n sc \<noteq> Inl NotCalibrated"
      using f by (auto simp add: int_div_scale_def int_to_float_def ebind_def
          split: option.splits sum.splits pyfloat.splits)
  qed
  have b: "\<And>f. py_round f \<noteq> Inl NotCalibrated"
  proof -
    fix f show "py_round f \<noteq> Inl NotCalibrated" by (cases f) simp_all
  qed
  show ?thesis using True a b
    by (auto simp add: physical_to_logical_def ebind_def Let_def split: sum.splits)
qed

lemma not_calibrated_iff_l2p:
  "logical_to_physical lx ly s = Inl NotCalibrated \<longleftrightarrow> \<not> calibrated (load_state s)"
proof (cases "calibrated (load_state s)")
  case False
  then show ?thesis by (simp add: logical_to_physical_def)
next
  case True
  have a: "\<And>n sc. int_mul_scale n sc \<noteq> Inl NotCalibrated"
    by (auto simp add: int_mul_scale_def int_to_float_def ebind_def
        split: option.splits sum.splits pyfloat.splits)
  have c: "\<And>x n. float_add_int x n \<noteq> Inl NotCalibrated"
    by (auto simp add: float_add_int_def int_to_float_def ebind_def
        split: option.splits sum.splits pyfloat.splits)
  have b: "\<And>f. py_round f \<noteq> Inl NotCalibrated"
  proof -
    fix f show "py_round f \<noteq> Inl NotCalibrated" by (cases f) simp_all
  qed
  show ?thesis using True a b c
    by (auto simp add: logical_to_physical_def ebind_def Let_def split: sum.splits)
qed

section \<open>Outcomes of the estimator\<close>

lemma spec_ratios_empty:
  assumes "map Inr rx = spec_ratios phys lgc pts"
  shows "rx = [] \<longleftrightarrow> (\<forall>p \<in> set pts. lgc p = 0)"
proof -
  have "rx = [] \<longleftrightarrow> spec_ratios phys lgc pts = []" using assms by (metis map_is_Nil_conv)
  then show ?thesis by (simp add: spec_ratios_Nil_iff)
qed

lemma calibration_of_ok:
  assumes b: "\<forall>p \<in> set pts. \<bar>physical_x p\<bar> \<le> 2 ^ 500 \<and> \<bar>physical_y p\<bar> \<le> 2 ^ 500 \<and>
                \<bar>logical_x p\<bar> \<le> 2 ^ 500 \<and> \<bar>logical_y p\<bar> \<le> 2 ^ 500"
    and len: "2 \<le> length pts"
    and c: "collect_scales pts [] [] = Inr (sx, sy)"
    and bx: "\<forall>x \<in> set sx. fbnd (2 ^ 500) x" and by': "\<forall>y \<in> set sy. fbnd (2 ^ 500) y"
    and ne: "sx \<noteq> []" "sy \<noteq> []"
  shows "\<exists>st. calibration_of now pts = Inr st"
proof -
  obtain mx where mx: "median sx = Inr (Fin mx)" "\<bar>mx\<bar> \<le> 2 ^ 500"
    using median_bnd [OF ne(1) bx] by auto
  obtain my where my: "median sy = Inr (Fin my)" "\<bar>my\<bar> \<le> 2 ^ 500"
    using median_bnd [OF ne(2) by'] by auto
  obtain fx where fx: "spread_of sx (Fin mx) = Inr fx" "in_range fx"
    using spread_of_ok [OF ne(1)] by blast
  obtain fy where fy: "spread_of sy (Fin my) = Inr fy" "in_range fy"
    using spread_of_ok [OF ne(2)] by blast
  have bxs: "\<forall>p \<in> set pts. \<bar>physical_x p\<bar> \<le> 2 ^ 500 \<and> \<bar>logical_x p\<bar> \<le> 2 ^ 500"
    using b by simp
  have bys: "\<forall>p \<in> set pts. \<bar>physical_y p\<bar> \<le> 2 ^ 500 \<and> \<bar>logical_y p\<bar> \<le> 2 ^ 500"
    using b by simp
  obtain ox where ox: "offsets_of physical_x logical_x (Fin mx) pts = Inr ox"
      "\<forall>x \<in> set ox. fbnd (2 ^ (2 * 500 + 1)) x"
    using offsets_of_ok [OF bxs mx(2)] by auto
  obtain oy where oy: "offsets_of physical_y logical_y (Fin my) pts = Inr oy"
      "\<forall>x \<in> set oy. fbnd (2 ^ (2 * 500 + 1)) x"
    using offsets_of_ok [OF bys my(2)] by auto
  obtain nx where nx: "offset_of ox = Inr nx" using offset_of_ok [OF ox(2)] by auto
  obtain ny where ny: "offset_of oy = Inr ny" using offset_of_ok [OF oy(2)] by auto
  have le: "(2::rat) ^ 500 \<le> 2 ^ 1024 - 2 ^ 971" by simp
  have "in_range (Fin mx)" using mx(2) le by simp
  then obtain rx where rx: "py_round_nd (Fin mx) 6 = Inr rx" using py_round_nd_ok by blast
  have "in_range (Fin my)" using my(2) le by simp
  then obtain ry where ry: "py_round_nd (Fin my) 6 = Inr ry" using py_round_nd_ok by blast
  obtain gx where gx: "py_round_nd fx 4 = Inr gx" using py_round_nd_ok [OF fx(2)] by blast
  obtain gy where gy: "py_round_nd fy 4 = Inr gy" using py_round_nd_ok [OF fy(2)] by blast
  show ?thesis
    using len c ne mx(1) my(1) fx(1) fy(1) ox(1) oy(1) nx ny rx ry gx gy
    by (simp add: calibration_of_def ebind_def)
qed

lemma fst_compute_calibration: "fst (compute_calibration now pts s) = calibration_of now pts"
  by (simp add: compute_calibration_def split: sum.splits)

text \<open>
  C5, as the code has it: on points whose coordinates all have magnitude at most \<open>2 ^ 500\<close>,
  \<^verbatim>\<open>compute_calibration\<close> raises the too-few-points error exactly when fewer than 2
  points are given; given at least 2 points it raises the degenerate-input error exactly
  when every point has logical coordinate 0 on some axis; and otherwise it returns a model.
\<close>

theorem compute_calibration_outcomes:
  assumes "\<forall>p \<in> set pts. \<bar>physical_x p\<bar> \<le> 2 ^ 500 \<and> \<bar>physical_y p\<bar> \<le> 2 ^ 500 \<and>
             \<bar>logical_x p\<bar> \<le> 2 ^ 500 \<and> \<bar>logical_y p\<bar> \<le> 2 ^ 500"
  shows "(fst (compute_calibration now pts s) = Inl InsufficientSamples \<longleftrightarrow> length pts < 2) \<and>
         (2 \<le> length pts \<longrightarrow>
            (fst (compute_calibration now pts s) = Inl DegenerateInput \<longleftrightarrow>
               (\<forall>p \<in> set pts. logical_x p = 0) \<or> (\<forall>p \<in> set pts. logical_y p = 0))) \<and>
         (2 \<le> length pts \<and> (\<exists>p \<in> set pts. logical_x p \<noteq> 0) \<and> (\<exists>p \<in> set pts. logical_y p \<noteq> 0) \<longrightarrow>
            (\<exists>st. fst (compute_calibration now pts s) = Inr st))"
proof (cases "length pts < 2")
  case True
  then show ?thesis by (simp add: fst_compute_calibration calibration_of_def)
next
  case False
  then have len: "2 \<le> length pts" by simp
  have bp: "\<forall>p \<in> set pts. \<bar>physical_x p\<bar> \<le> 2 ^ 500 \<and> \<bar>physical_y p\<bar> \<le> 2 ^ 500"
    using assms by simp
  obtain sx sy where c: "collect_scales pts [] [] = Inr (sx, sy)"
      and bx: "\<forall>x \<in> set sx. fbnd (2 ^ 500) x" and by': "\<forall>y \<in> set sy. fbnd (2 ^ 500) y"
    using collect_scales_ok [OF bp, of "[]" "[]"] by auto
  obtain rx ry where "sx = rx" "sy = ry"
      and rx: "map Inr rx = spec_ratios physical_x logical_x pts"
      and ry: "map Inr ry = spec_ratios physical_y logical_y pts"
    using collect_scales_spec [OF c] by auto
  then have ex: "sx = [] \<longleftrightarrow> (\<forall>p \<in> set pts. logical_x p = 0)"
    and ey: "sy = [] \<longleftrightarrow> (\<forall>p \<in> set pts. logical_y p = 0)"
    using spec_ratios_empty [OF rx] spec_ratios_empty [OF ry] by simp_all
  show ?thesis
  proof (cases "sx = [] \<or> sy = []")
    case True
    then have "calibration_of now pts = Inl DegenerateInput"
      using len c by (auto simp add: calibration_of_def ebind_def)
    then show ?thesis using len True ex ey by (auto simp add: fst_compute_calibration)
  next
    case ne: False
    then obtain st where "calibration_of now pts = Inr st"
      using calibration_of_ok [OF assms len c bx by'] by auto
    then show ?thesis using len ne ex ey by (auto simp add: fst_compute_calibration)
  qed
qed

theorem compute_calibration_outcomes_witness:
  "fst (compute_calibration 0 one_point None) = Inl InsufficientSamples \<and>
   fst (compute_calibration 0 zero_x_points None) = Inl DegenerateInput \<and>
   fst (compute_calibration 0 spec_example_points None) \<noteq> Inl InsufficientSamples \<and>
   fst (compute_calibration 0 spec_example_points None) \<noteq> Inl DegenerateInput \<and>
   \<not> isl (fst (compute_calibration 0 spec_example_points None))"
proof -
  have a: "fst (compute_calibration 0 one_point None) = Inl InsufficientSamples"
    using compute_calibration_outcomes [of one_point 0 None]
    by (simp add: one_point_def mk_point_def)
  have b: "fst (compute_calibration 0 zero_x_points None) = Inl DegenerateInput"
    using compute_calibration_outcomes [of zero_x_points 0 None]
    by (simp add: zero_x_points_def mk_point_def)
  have c: "fst (compute_calibration 0 spec_example_points None) \<noteq> Inl InsufficientSamples \<and>
           fst (compute_calibration 0 spec_example_points None) \<noteq> Inl DegenerateInput \<and>
           \<not> isl (fst (compute_calibration 0 spec_example_points None))"
    using compute_calibration_outcomes [of spec_example_points 0 None]
    by (auto simp add: spec_example_points_def mk_point_def)
  show ?thesis using a b c by simp
qed

text \<open>
  C5, as stated, fails on coordinates beyond the float range: two points, each with a
  usable ratio on both axes, and the ratio \<^verbatim>\<open>2 ** 1024 / 1\<close> raises \<^verbatim>\<open>OverflowError\<close>.
\<close>

theorem compute_calibration_overflow:
  "length huge_points = 2 \<and>
   logical_x (huge_points ! 0) \<noteq> 0 \<and> logical_y (huge_points ! 0) \<noteq> 0 \<and>
   logical_x (huge_points ! 1) \<noteq> 0 \<and> logical_y (huge_points ! 1) \<noteq> 0 \<and>
   fst (compute_calibration 0 huge_points None) = Inl OverflowError"
proof -
  have "int_truediv (2 ^ 1024) 1 = Inl OverflowError"
    by (simp add: int_truediv_def fl_overflow)
  then show ?thesis
    by (simp add: huge_points_def mk_point_def fst_compute_calibration calibration_of_def ebind_def)
qed

text \<open>
  C4, as the code has it: when \<^verbatim>\<open>compute_calibration\<close> returns, at least 2 points were given,
  the returned record is the persisted one, and its \<^verbatim>\<open>scale_x\<close> (\<^verbatim>\<open>scale_y\<close>) is the median
  of the ratios physical / logical of exactly the points with a nonzero logical coordinate
  on that axis, rounded to 6 decimal places.
\<close>

theorem stored_scale_is_rounded_median:
  assumes "fst (compute_calibration now pts s) = Inr st"
  shows "2 \<le> length pts \<and> snd (compute_calibration now pts s) = Some st \<and>
         (\<exists>rx ry mx my.
            map Inr rx = spec_ratios physical_x logical_x pts \<and>
            map Inr ry = spec_ratios physical_y logical_y pts \<and>
            median rx = Inr mx \<and> median ry = Inr my \<and>
            Inr (the (scale_x st)) = py_round_nd mx 6 \<and>
            Inr (the (scale_y st)) = py_round_nd my 6 \<and>
            scale_x st \<noteq> None \<and> scale_y st \<noteq> None)"
proof -
  have c: "calibration_of now pts = Inr st" using assms by (simp add: fst_compute_calibration)
  then have len: "2 \<le> length pts" by (auto simp add: calibration_of_def split: if_splits)
  have sv: "snd (compute_calibration now pts s) = Some st"
    using c by (simp add: compute_calibration_def save_state_def)
  obtain sx sy where cs: "collect_scales pts [] [] = Inr (sx, sy)"
    using c len by (auto simp add: calibration_of_def ebind_def split: sum.splits)
  obtain mx my where m: "median sx = Inr mx" "median sy = Inr my"
    using c len cs by (auto simp add: calibration_of_def ebind_def split: sum.splits if_splits)
  have r: "Inr (the (scale_x st)) = py_round_nd mx 6 \<and> Inr (the (scale_y st)) = py_round_nd my 6 \<and>
        scale_x st \<noteq> None \<and> scale_y st \<noteq> None"
    using c len cs m by (auto simp add: calibration_of_def ebind_def split: sum.splits if_splits)
  have "map Inr sx = spec_ratios physical_x logical_x pts \<and>
        map Inr sy = spec_ratios physical_y logical_y pts"
    using collect_scales_spec [OF cs] by auto
  then show ?thesis using len sv m r by blast
qed

theorem stored_scale_is_rounded_median_witness:
  "\<not> isl (fst (compute_calibration 0 seven_digit_points None)) \<and>
   2 \<le> length seven_digit_points \<and>
   snd (compute_calibration 0 seven_digit_points None) =
     Some (projr (fst (compute_calibration 0 seven_digit_points None)))"
  using stored_scale_is_rounded_median [of 0 seven_digit_points None
      "projr (fst (compute_calibration 0 seven_digit_points None))"]
  by (simp add: seven_digit_eval)

text \<open>
  C4, as stated, fails where the median has more than 6 decimal places: both ratios and
  their median are 129/128 = 1.0078125, and the stored scale is the float 1.007812.
\<close>

theorem stored_scale_not_median:
  "spec_ratios physical_x logical_x seven_digit_points = [Inr (Fin (129 / 128)), Inr (Fin (129 / 128))] \<and>
   median [Fin (129 / 128), Fin (129 / 128)] = Inr (Fin (129 / 128)) \<and>
   scale_x (projr (fst (compute_calibration 0 seven_digit_points None))) =
     Some (Fin (2269390873829757 / 2251799813685248)) \<and>
   Fin (2269390873829757 / 2251799813685248) \<noteq> Fin (129 / 128)"
proof -
  have "spec_ratios physical_x logical_x seven_digit_points =
      [Inr (Fin (129 / 128)), Inr (Fin (129 / 128))]"
    by (simp add: spec_ratios_def seven_digit_points_def mk_point_def int_truediv_def fl_ev)
  then show ?thesis by (simp add: seven_digit_eval seven_digit_median)
qed

text \<open>
  C3, as the code has it: on the two example points, whose ratios are 100/100 = 1 and
  200/100 = 2 on each axis, \<^verbatim>\<open>compute_calibration\<close> returns a model with both scales
  1.5, the median of 1 and 2, spreads 0.6667 and \<^verbatim>\<open>consistent\<close> false.
\<close>

theorem example_estimate:
  "fst (compute_calibration now spec_example_points s) =
     Inr \<lparr>calibrated = True, scale_x = Some (Fin (3 / 2)), scale_y = Some (Fin (3 / 2)),
          offset_x = 0, offset_y = 0, points = spec_example_points, calibrated_at = Some now,
          verified = False, consistent = Some False,
          spread_x = Some (Fin (6005099743135819 / 9007199254740992)),
          spread_y = Some (Fin (6005099743135819 / 9007199254740992)),
          verification_notes = None, verified_at = None\<rparr>"
  by (rule spec_example_eval)

text \<open>C3, as stated, fails: the scales are not 1.0 and \<^verbatim>\<open>consistent\<close> is not true.\<close>

theorem example_estimate_not_unit:
  "\<not> isl (fst (compute_calibration 0 spec_example_points None)) \<and>
   scale_x (projr (fst (compute_calibration 0 spec_example_points None))) \<noteq> Some (Fin 1) \<and>
   scale_y (projr (fst (compute_calibration 0 spec_example_points None))) \<noteq> Some (Fin 1) \<and>
   consistent (projr (fst (compute_calibration 0 spec_example_points None))) \<noteq> Some True"
  by (simp add: spec_example_eval)

section \<open>Results of the converter\<close>

lemma fl_Fin_val: "fl x = Fin r \<Longrightarrow> r = fl_val x"
  by (auto simp add: fl_def split: if_splits)

lemma fl_val_bounded:
  assumes "\<bar>x\<bar> \<le> 2 ^ M" "M \<le> 1023"
  shows "fl x = Fin (fl_val x) \<and> \<bar>fl_val x - x\<bar> \<le> 2 ^ M / 2 ^ 53 \<and> \<bar>fl_val x\<bar> \<le> 2 ^ M"
proof -
  obtain r where r: "fl x = Fin r" "\<bar>r - x\<bar> \<le> 2 ^ M / 2 ^ 53" "\<bar>r\<bar> \<le> 2 ^ M"
    using fl_error [OF assms] by blast
  then show ?thesis using fl_Fin_val [OF r(1)] by simp
qed

lemma int_to_float_exact: "\<bar>n\<bar> < 2 ^ 53 \<Longrightarrow> int_to_float n = Inr (Fin (of_int n))"
  by (simp add: int_to_float_def fl_int_exact)

lemma of_int_abs_lt_pow:
  assumes "\<bar>n\<bar> < 2 ^ M"
  shows "\<bar>of_int n :: rat\<bar> < 2 ^ M"
proof -
  have "(of_int \<bar>n\<bar> :: rat) < of_int (2 ^ M)" using assms by (simp only: of_int_less_iff)
  then show ?thesis by simp
qed

lemma to_logical_axis:
  assumes p: "\<bar>p\<bar> < 2 ^ 52" and off: "\<bar>off\<bar> < 2 ^ 52" and s: "1 / 2 ^ 900 \<le> \<bar>s\<bar>"
  shows "ebind (int_div_scale (p - off) (Some (Fin s))) py_round =
           Inr (rhe (fl_val (of_int (p - off) / s)))"
proof -
  have n: "\<bar>p - off\<bar> < 2 ^ 53" using p off by simp
  have sn: "s \<noteq> 0" using s by auto
  have "\<bar>of_int (p - off) :: rat\<bar> \<le> 2 ^ 53" using of_int_abs_lt_pow [OF n] by simp
  moreover have "1 / \<bar>s\<bar> \<le> 2 ^ 900"
  proof -
    have "0 < \<bar>s\<bar>" using sn by simp
    then show ?thesis using s by (simp add: field_simps)
  qed
  ultimately have "\<bar>of_int (p - off) :: rat\<bar> * (1 / \<bar>s\<bar>) \<le> 2 ^ 53 * 2 ^ 900"
    by (intro mult_mono) simp_all
  then have "\<bar>of_int (p - off) / s\<bar> \<le> 2 ^ 953" by (simp add: abs_divide)
  then have "fl (of_int (p - off) / s) = Fin (fl_val (of_int (p - off) / s))"
    using fl_val_bounded [of "of_int (p - off) / s" 953] by simp
  then show ?thesis
    using int_to_float_exact [OF n] sn by (simp add: int_div_scale_def ebind_def)
qed

lemma to_physical_axis:
  assumes l: "\<bar>l\<bar> < 2 ^ 52" and off: "\<bar>off\<bar> < 2 ^ 52" and s: "\<bar>s\<bar> \<le> 2 ^ 900"
  shows "ebind (int_mul_scale l (Some (Fin s))) (\<lambda>m. ebind (float_add_int m off) py_round) =
           Inr (rhe (fl_val (fl_val (of_int l * s) + of_int off)))"
proof -
  have l53: "\<bar>l\<bar> < 2 ^ 53" and o53: "\<bar>off\<bar> < 2 ^ 53" using l off by simp_all
  have "\<bar>of_int l :: rat\<bar> \<le> 2 ^ 52" using of_int_abs_lt_pow [OF l] by simp
  then have "\<bar>of_int l :: rat\<bar> * \<bar>s\<bar> \<le> 2 ^ 52 * 2 ^ 900" using s by (intro mult_mono) simp_all
  then have "\<bar>of_int l * s\<bar> \<le> 2 ^ 952" by (simp add: abs_mult)
  then have m: "fl (of_int l * s) = Fin (fl_val (of_int l * s))" "\<bar>fl_val (of_int l * s)\<bar> \<le> 2 ^ 952"
    using fl_val_bounded [of "of_int l * s" 952] by simp_all
  have "\<bar>of_int off :: rat\<bar> \<le> 2 ^ 52" using of_int_abs_lt_pow [OF off] by simp
  then have "\<bar>fl_val (of_int l * s) + of_int off\<bar> \<le> 2 ^ 953" using m(2) by simp
  then have t: "fl (fl_val (of_int l * s) + of_int off) = Fin (fl_val (fl_val (of_int l * s) + of_int off))"
    using fl_val_bounded [of "fl_val (of_int l * s) + of_int off" 953] by simp
  show ?thesis
    using int_to_float_exact [OF l53] int_to_float_exact [OF o53] m(1) t
    by (simp add: int_mul_scale_def float_add_int_def ebind_def)
qed

lemma physical_to_logical_axes:
  "calibrated (load_state s) \<Longrightarrow>
   physical_to_logical px py s =
     ebind (ebind (int_div_scale (px - offset_x (load_state s)) (scale_x (load_state s))) py_round)
       (\<lambda>lx. ebind (ebind (int_div_scale (py - offset_y (load_state s)) (scale_y (load_state s))) py_round)
       (\<lambda>ly. Inr (lx, ly)))"
  by (simp add: physical_to_logical_def Let_def ebind_def split: sum.splits)

lemma logical_to_physical_axes:
  "calibrated (load_state s) \<Longrightarrow>
   logical_to_physical lx ly s =
     ebind (ebind (int_mul_scale lx (scale_x (load_state s)))
              (\<lambda>m. ebind (float_add_int m (offset_x (load_state s))) py_round))
       (\<lambda>px. ebind (ebind (int_mul_scale ly (scale_y (load_state s)))
              (\<lambda>m. ebind (float_add_int m (offset_y (load_state s))) py_round))
       (\<lambda>py. Inr (px, py)))"
  by (simp add: logical_to_physical_def Let_def ebind_def split: sum.splits)

text \<open>
  C7, as the code has it. Each conversion raises the not-calibrated error exactly when the
  loaded record has \<^verbatim>\<open>calibrated\<close> false. When \<^verbatim>\<open>calibrated\<close> is true, the stored scales are
  finite floats of magnitude between \<open>2 ^ - 900\<close> and \<open>2 ^ 900\<close>, and the stored offsets
  and the input coordinates are below \<open>2 ^ 52\<close> in magnitude, the physical-to-logical
  conversion returns, per axis, \<^verbatim>\<open>round((physical - offset) / scale)\<close> and the
  logical-to-physical conversion \<^verbatim>\<open>round(logical * scale + offset)\<close>: the int difference
  is exact, each float operation is the exact result rounded to the nearest float
  (\<open>fl_val\<close>), and \<^verbatim>\<open>round\<close> is to the nearest int, ties to even (\<open>rhe\<close>).
\<close>

theorem conversion_results:
  "(physical_to_logical px py s = Inl NotCalibrated \<longleftrightarrow> \<not> calibrated (load_state s)) \<and>
   (logical_to_physical lx ly s = Inl NotCalibrated \<longleftrightarrow> \<not> calibrated (load_state s)) \<and>
   (calibrated (load_state s) \<and>
    scale_x (load_state s) = Some (Fin sx) \<and> scale_y (load_state s) = Some (Fin sy) \<and>
    1 / 2 ^ 900 \<le> \<bar>sx\<bar> \<and> \<bar>sx\<bar> \<le> 2 ^ 900 \<and> 1 / 2 ^ 900 \<le> \<bar>sy\<bar> \<and> \<bar>sy\<bar> \<le> 2 ^ 900 \<and>
    \<bar>offset_x (load_state s)\<bar> < 2 ^ 52 \<and> \<bar>offset_y (load_state s)\<bar> < 2 ^ 52 \<longrightarrow>
      (\<bar>px\<bar> < 2 ^ 52 \<and> \<bar>py\<bar> < 2 ^ 52 \<longrightarrow>
         physical_to_logical px py s =
           Inr (rhe (fl_val (of_int (px - offset_x (load_state s)) / sx)),
                rhe (fl_val (of_int (py - offset_y (load_state s)) / sy)))) \<and>
      (\<bar>lx\<bar> < 2 ^ 52 \<and> \<bar>ly\<bar> < 2 ^ 52 \<longrightarrow>
         logical_to_physical lx ly s =
           Inr (rhe (fl_val (fl_val (of_int lx * sx) + of_int (offset_x (load_state s)))),
                rhe (fl_val (fl_val (of_int ly * sy) + of_int (offset_y (load_state s)))))))"
proof (intro conjI impI)
  show "physical_to_logical px py s = Inl NotCalibrated \<longleftrightarrow> \<not> calibrated (load_state s)"
    by (rule not_calibrated_iff_p2l)
  show "logical_to_physical lx ly s = Inl NotCalibrated \<longleftrightarrow> \<not> calibrated (load_state s)"
    by (rule not_calibrated_iff_l2p)
next
  assume h: "calibrated (load_state s) \<and>
    scale_x (load_state s) = Some (Fin sx) \<and> scale_y (load_state s) = Some (Fin sy) \<and>
    1 / 2 ^ 900 \<le> \<bar>sx\<bar> \<and> \<bar>sx\<bar> \<le> 2 ^ 900 \<and> 1 / 2 ^ 900 \<le> \<bar>sy\<bar> \<and> \<bar>sy\<bar> \<le> 2 ^ 900 \<and>
    \<bar>offset_x (load_state s)\<bar> < 2 ^ 52 \<and> \<bar>offset_y (load_state s)\<bar> < 2 ^ 52"
    and p: "\<bar>px\<bar> < 2 ^ 52 \<and> \<bar>py\<bar> < 2 ^ 52"
  have x: "ebind (int_div_scale (px - offset_x (load_state s)) (Some (Fin sx))) py_round =
      Inr (rhe (fl_val (of_int (px - offset_x (load_state s)) / sx)))"
    using h p by (intro to_logical_axis) simp_all
  have y: "ebind (int_div_scale (py - offset_y (load_state s)) (Some (Fin sy))) py_round =
      Inr (rhe (fl_val (of_int (py - offset_y (load_state s)) / sy)))"
    using h p by (intro to_logical_axis) simp_all
  have "physical_to_logical px py s =
     ebind (ebind (int_div_scale (px - offset_x (load_state s)) (Some (Fin sx))) py_round)
       (\<lambda>lx. ebind (ebind (int_div_scale (py - offset_y (load_state s)) (Some (Fin sy))) py_round)
       (\<lambda>ly. Inr (lx, ly)))"
    using h physical_to_logical_axes [of s px py] by simp
  then show "physical_to_logical px py s =
           Inr (rhe (fl_val (of_int (px - offset_x (load_state s)) / sx)),
                rhe (fl_val (of_int (py - offset_y (load_state s)) / sy)))"
    by (simp only: x y) (simp add: ebind_def)
next
  assume h: "calibrated (load_state s) \<and>
    scale_x (load_state s) = Some (Fin sx) \<and> scale_y (load_state s) = Some (Fin sy) \<and>
    1 / 2 ^ 900 \<le> \<bar>sx\<bar> \<and> \<bar>sx\<bar> \<le> 2 ^ 900 \<and> 1 / 2 ^ 900 \<le> \<bar>sy\<bar> \<and> \<bar>sy\<bar> \<le> 2 ^ 900 \<and>
    \<bar>offset_x (load_state s)\<bar> < 2 ^ 52 \<and> \<bar>offset_y (load_state s)\<bar> < 2 ^ 52"
    and l: "\<bar>lx\<bar> < 2 ^ 52 \<and> \<bar>ly\<bar> < 2 ^ 52"
  have x: "ebind (int_mul_scale lx (Some (Fin sx)))
        (\<lambda>m. ebind (float_add_int m (offset_x (load_state s))) py_round) =
      Inr (rhe (fl_val (fl_val (of_int lx * sx) + of_int (offset_x (load_state s)))))"
    using h l by (intro to_physical_axis) simp_all
  have y: "ebind (int_mul_scale ly (Some (Fin sy)))
        (\<lambda>m. ebind (float_add_int m (offset_y (load_state s))) py_round) =
      Inr (rhe (fl_val (fl_val (of_int ly * sy) + of_int (offset_y (load_state s)))))"
    using h l by (intro to_physical_axis) simp_all
  have "logical_to_physical lx ly s =
     ebind (ebind (int_mul_scale lx (Some (Fin sx)))
              (\<lambda>m. ebind (float_add_int m (offset_x (load_state s))) py_round))
       (\<lambda>px. ebind (ebind (int_mul_scale ly (Some (Fin sy)))
              (\<lambda>m. ebind (float_add_int m (offset_y (load_state s))) py_round))
       (\<lambda>py. Inr (px, py)))"
    using h logical_to_physical_axes [of s lx ly] by simp
  then show "logical_to_physical lx ly s =
           Inr (rhe (fl_val (fl_val (of_int lx * sx) + of_int (offset_x (load_state s)))),
                rhe (fl_val (fl_val (of_int ly * sy) + of_int (offset_y (load_state s)))))"
    by (simp only: x y) (simp add: ebind_def)
qed

lemma snd_compute_calibration:
  "fst (compute_calibration now pts s) = Inr st \<Longrightarrow> snd (compute_calibration now pts s) = Some st"
  by (auto simp add: compute_calibration_def save_state_def split: sum.splits)

lemma spec_example_store:
  "load_state (snd (compute_calibration now spec_example_points s)) =
     \<lparr>calibrated = True, scale_x = Some (Fin (3 / 2)), scale_y = Some (Fin (3 / 2)),
          offset_x = 0, offset_y = 0, points = spec_example_points, calibrated_at = Some now,
          verified = False, consistent = Some False,
          spread_x = Some (Fin (6005099743135819 / 9007199254740992)),
          spread_y = Some (Fin (6005099743135819 / 9007199254740992)),
          verification_notes = None, verified_at = None\<rparr>"
  using snd_compute_calibration [OF spec_example_eval, of now s] by (simp add: load_state_def)

text \<open>A witness: the model of the example points, scale 1.5 and offset 0, and no state file.\<close>

theorem conversion_results_witness:
  "physical_to_logical 150 300 (snd (compute_calibration 0 spec_example_points None)) = Inr (100, 200) \<and>
   logical_to_physical 100 200 (snd (compute_calibration 0 spec_example_points None)) = Inr (150, 300) \<and>
   physical_to_logical 150 300 None = Inl NotCalibrated"
proof -
  have a: "physical_to_logical 150 300 None = Inl NotCalibrated"
    using conversion_results [of 150 300 None]
    by (simp add: load_state_def default_state_def)
  have b: "physical_to_logical 150 300 (snd (compute_calibration 0 spec_example_points None)) = Inr (100, 200) \<and>
    logical_to_physical 100 200 (snd (compute_calibration 0 spec_example_points None)) = Inr (150, 300)"
    using conversion_results [of 150 300 "snd (compute_calibration 0 spec_example_points None)"
        100 200 "3 / 2" "3 / 2"]
    by (simp add: spec_example_store fl_ev)
  show ?thesis using a b by simp
qed

text \<open>
  C7, as stated, fails on a calibrated record whose scale is 0.0: the screen origin
  observed at logical (100, 100) gives the scales 0/100 = 0.0, stored with
  \<^verbatim>\<open>calibrated\<close> true, and the physical-to-logical conversion divides by that scale.
\<close>

theorem zero_scale_conversion_raises:
  "calibrated (load_state (snd (compute_calibration 0 origin_points None))) \<and>
   scale_x (load_state (snd (compute_calibration 0 origin_points None))) = Some (Fin 0) \<and>
   physical_to_logical 5 5 (snd (compute_calibration 0 origin_points None)) = Inl ZeroDivisionError"
  by (simp add: origin_eval conv_eval fl_ev)

section \<open>The round trip\<close>

lemma axis_round_trip:
  assumes s: "1 / 2 \<le> \<bar>s\<bar>" "\<bar>s\<bar> \<le> 2 ^ 16" and off: "\<bar>off\<bar> \<le> 2 ^ 31" and l: "\<bar>l\<bar> \<le> 2 ^ 31"
  shows "\<exists>p q. ebind (int_mul_scale l (Some (Fin s))) (\<lambda>m. ebind (float_add_int m off) py_round) = Inr p \<and>
           ebind (int_div_scale (p - off) (Some (Fin s))) py_round = Inr q \<and>
           \<bar>q - l\<bar> \<le> 1"
proof -
  define lr :: rat where "lr = of_int l"
  define offr :: rat where "offr = of_int off"
  have sn: "s \<noteq> 0" using s(1) by auto
  have sp: "0 < \<bar>s\<bar>" using sn by simp
  have lrb: "\<bar>lr\<bar> \<le> 2 ^ 31" unfolding lr_def using l by (rule of_int_abs_le_pow)
  have offb: "\<bar>offr\<bar> \<le> 2 ^ 31" unfolding offr_def using off by (rule of_int_abs_le_pow)
  have l53: "\<bar>l\<bar> < 2 ^ 53" and o53: "\<bar>off\<bar> < 2 ^ 53" using l off by simp_all
  \<comment> \<open>the product\<close>
  have "\<bar>lr\<bar> * \<bar>s\<bar> \<le> 2 ^ 31 * 2 ^ 16" using lrb s(2) by (intro mult_mono) simp_all
  then have "\<bar>lr * s\<bar> \<le> 2 ^ 47" by (simp add: abs_mult)
  then have m: "fl (lr * s) = Fin (fl_val (lr * s))" "\<bar>fl_val (lr * s) - lr * s\<bar> \<le> 2 ^ 47 / 2 ^ 53"
      "\<bar>fl_val (lr * s)\<bar> \<le> 2 ^ 47"
    using fl_val_bounded [of "lr * s" 47] by simp_all
  define m where "m = fl_val (lr * s)"
  \<comment> \<open>the sum\<close>
  have "\<bar>m + offr\<bar> \<le> 2 ^ 48" using m(3) offb by (simp add: m_def)
  then have t: "fl (m + offr) = Fin (fl_val (m + offr))" "\<bar>fl_val (m + offr) - (m + offr)\<bar> \<le> 2 ^ 48 / 2 ^ 53"
      "\<bar>fl_val (m + offr)\<bar> \<le> 2 ^ 48"
    using fl_val_bounded [of "m + offr" 48] by simp_all
  define t where "t = fl_val (m + offr)"
  \<comment> \<open>the physical coordinate\<close>
  define p where "p = rhe t"
  have pt: "\<bar>of_int p - t\<bar> \<le> 1 / 2" unfolding p_def by (rule rhe_err)
  have "\<bar>t\<bar> \<le> of_int (2 ^ 48)" using t(3) by (simp add: t_def)
  then have pb: "\<bar>p\<bar> \<le> 2 ^ 48" unfolding p_def by (rule rhe_abs_le_int)
  have fwd: "ebind (int_mul_scale l (Some (Fin s))) (\<lambda>m. ebind (float_add_int m off) py_round) = Inr p"
    using int_to_float_exact [OF l53] int_to_float_exact [OF o53] m(1) t(1)
    by (simp add: int_mul_scale_def float_add_int_def ebind_def lr_def offr_def m_def t_def p_def)
  \<comment> \<open>back\<close>
  define nr :: rat where "nr = of_int (p - off)"
  have n53: "\<bar>p - off\<bar> < 2 ^ 53" using pb off by simp
  have nrb: "\<bar>nr\<bar> \<le> 2 ^ 49"
  proof -
    have "\<bar>p - off\<bar> \<le> 2 ^ 49" using pb off by simp
    then show ?thesis unfolding nr_def by (rule of_int_abs_le_pow)
  qed
  have inv: "1 / \<bar>s\<bar> \<le> 2" using s(1) sp by (simp add: field_simps)
  have "\<bar>nr\<bar> * (1 / \<bar>s\<bar>) \<le> 2 ^ 49 * 2" using nrb inv by (intro mult_mono) simp_all
  then have "\<bar>nr / s\<bar> \<le> 2 ^ 50" by (simp add: abs_divide)
  then have q: "fl (nr / s) = Fin (fl_val (nr / s))" "\<bar>fl_val (nr / s) - nr / s\<bar> \<le> 2 ^ 50 / 2 ^ 53"
    using fl_val_bounded [of "nr / s" 50] by simp_all
  define q where "q = rhe (fl_val (nr / s))"
  have bwd: "ebind (int_div_scale (p - off) (Some (Fin s))) py_round = Inr q"
    using int_to_float_exact [OF n53] q(1) sn
    by (simp add: int_div_scale_def ebind_def nr_def q_def)
  \<comment> \<open>the distance\<close>
  have nrv: "nr = of_int p - offr" by (simp add: nr_def offr_def)
  have d1: "\<bar>nr - lr * s\<bar> \<le> 1 / 2 + 2 ^ 48 / 2 ^ 53 + 2 ^ 47 / 2 ^ 53"
    using pt t(2) m(2) unfolding nrv m_def [symmetric] t_def [symmetric] by linarith
  have "nr / s - lr = (nr - lr * s) / s" using sn by (simp add: field_simps)
  then have "\<bar>nr / s - lr\<bar> = \<bar>nr - lr * s\<bar> * (1 / \<bar>s\<bar>)" by (simp add: abs_divide)
  also have "\<dots> \<le> (1 / 2 + 2 ^ 48 / 2 ^ 53 + 2 ^ 47 / 2 ^ 53) * 2"
    using d1 inv by (intro mult_mono) simp_all
  finally have d2: "\<bar>nr / s - lr\<bar> \<le> (1 / 2 + 2 ^ 48 / 2 ^ 53 + 2 ^ 47 / 2 ^ 53) * 2" .
  have d3: "\<bar>of_int q - fl_val (nr / s)\<bar> \<le> 1 / 2" unfolding q_def by (rule rhe_err)
  have "\<bar>of_int q - lr\<bar> \<le> 1 / 2 + 2 ^ 50 / 2 ^ 53 + (1 / 2 + 2 ^ 48 / 2 ^ 53 + 2 ^ 47 / 2 ^ 53) * 2"
    using d2 d3 q(2) by linarith
  also have "\<dots> < 2" by simp
  finally have "\<bar>of_int (q - l) :: rat\<bar> < of_int 2" by (simp add: lr_def)
  then have "(of_int \<bar>q - l\<bar> :: rat) < of_int 2" by simp
  then have "\<bar>q - l\<bar> < 2" by (simp only: of_int_less_iff)
  then have "\<bar>q - l\<bar> \<le> 1" by simp
  then show ?thesis using fwd bwd by blast
qed

text \<open>
  C2, as the code has it: on a calibrated record whose scales are finite floats of
  magnitude between 1/2 and \<open>2 ^ 16\<close> and whose offsets have magnitude at most \<open>2 ^ 31\<close>,
  for every pair of ints of magnitude at most \<open>2 ^ 31\<close>, converting logical to physical
  and the result back to logical succeeds and returns coordinates that differ from the
  pair by at most 1 on each axis.
\<close>

theorem round_trip_within_one:
  assumes "calibrated (load_state s)"
    and "scale_x (load_state s) = Some (Fin sx)" "scale_y (load_state s) = Some (Fin sy)"
    and "1 / 2 \<le> \<bar>sx\<bar>" "\<bar>sx\<bar> \<le> 2 ^ 16" "1 / 2 \<le> \<bar>sy\<bar>" "\<bar>sy\<bar> \<le> 2 ^ 16"
    and "\<bar>offset_x (load_state s)\<bar> \<le> 2 ^ 31" "\<bar>offset_y (load_state s)\<bar> \<le> 2 ^ 31"
    and "\<bar>lx\<bar> \<le> 2 ^ 31" "\<bar>ly\<bar> \<le> 2 ^ 31"
  shows "\<exists>px py lx' ly'.
           logical_to_physical lx ly s = Inr (px, py) \<and>
           physical_to_logical px py s = Inr (lx', ly') \<and>
           \<bar>lx' - lx\<bar> \<le> 1 \<and> \<bar>ly' - ly\<bar> \<le> 1"
proof -
  obtain px qx where x:
      "ebind (int_mul_scale lx (Some (Fin sx)))
         (\<lambda>m. ebind (float_add_int m (offset_x (load_state s))) py_round) = Inr px"
      "ebind (int_div_scale (px - offset_x (load_state s)) (Some (Fin sx))) py_round = Inr qx"
      "\<bar>qx - lx\<bar> \<le> 1"
    using axis_round_trip [OF assms(4,5,8,10)] by blast
  obtain py qy where y:
      "ebind (int_mul_scale ly (Some (Fin sy)))
         (\<lambda>m. ebind (float_add_int m (offset_y (load_state s))) py_round) = Inr py"
      "ebind (int_div_scale (py - offset_y (load_state s)) (Some (Fin sy))) py_round = Inr qy"
      "\<bar>qy - ly\<bar> \<le> 1"
    using axis_round_trip [OF assms(6,7,9,11)] by blast
  have "logical_to_physical lx ly s = Inr (px, py)"
    using logical_to_physical_axes [OF assms(1), of lx ly] x(1) y(1) assms(2,3)
    by (simp add: ebind_def)
  moreover have "physical_to_logical px py s = Inr (qx, qy)"
    using physical_to_logical_axes [OF assms(1), of px py] x(2) y(2) assms(2,3)
    by (simp add: ebind_def)
  ultimately show ?thesis using x(3) y(3) by blast
qed

theorem round_trip_within_one_witness:
  "logical_to_physical 7 (- 3) (snd (compute_calibration 0 spec_example_points None)) = Inr (10, - 4) \<and>
   \<not> isl (physical_to_logical 10 (- 4) (snd (compute_calibration 0 spec_example_points None))) \<and>
   \<bar>fst (projr (physical_to_logical 10 (- 4) (snd (compute_calibration 0 spec_example_points None)))) - 7\<bar> \<le> 1 \<and>
   \<bar>snd (projr (physical_to_logical 10 (- 4) (snd (compute_calibration 0 spec_example_points None)))) - (- 3)\<bar> \<le> 1"
proof -
  have a: "logical_to_physical 7 (- 3) (snd (compute_calibration 0 spec_example_points None)) = Inr (10, - 4)"
    by (simp add: logical_to_physical_axes spec_example_store int_mul_scale_def float_add_int_def
        int_to_float_def ebind_def fl_ev)
  obtain px py lx' ly' where r:
    "logical_to_physical 7 (- 3) (snd (compute_calibration 0 spec_example_points None)) = Inr (px, py)"
    "physical_to_logical px py (snd (compute_calibration 0 spec_example_points None)) = Inr (lx', ly')"
    "\<bar>lx' - 7\<bar> \<le> 1" "\<bar>ly' - (- 3)\<bar> \<le> 1"
    using round_trip_within_one [of "snd (compute_calibration 0 spec_example_points None)"
        "3 / 2" "3 / 2" 7 "- 3"]
    by (auto simp add: spec_example_store)
  have "px = 10" "py = - 4" using a r(1) by simp_all
  then show ?thesis using a r(2,3,4) by simp
qed

text \<open>
  C2, as stated, fails for a scale below 1/2: the model estimated from two points of
  ratio 1/4 maps logical (2, 2) to physical (0, 0), since \<^verbatim>\<open>round(0.5)\<close> is 0, and
  physical (0, 0) back to logical (0, 0), 2 units away on each axis.
\<close>

theorem round_trip_drift:
  "calibrated (load_state (snd (compute_calibration 0 quarter_points None))) \<and>
   logical_to_physical 2 2 (snd (compute_calibration 0 quarter_points None)) = Inr (0, 0) \<and>
   physical_to_logical 0 0 (snd (compute_calibration 0 quarter_points None)) = Inr (0, 0) \<and>
   \<not> \<bar>(0::int) - 2\<bar> \<le> 1"
  by (simp add: quarter_eval conv_eval fl_ev)

section \<open>The sign of the estimated scale\<close>

lemma fge_mono: "c \<le> c' \<Longrightarrow> fge c' f \<Longrightarrow> fge c f"
  by (cases f) simp_all

lemma calibration_of_scales:
  assumes "calibration_of now pts = Inr st"
  shows "\<exists>sx sy mx my rx ry.
           2 \<le> length pts \<and> collect_scales pts [] [] = Inr (sx, sy) \<and> sx \<noteq> [] \<and> sy \<noteq> [] \<and>
           median sx = Inr mx \<and> median sy = Inr my \<and>
           py_round_nd mx 6 = Inr rx \<and> py_round_nd my 6 = Inr ry \<and>
           scale_x st = Some rx \<and> scale_y st = Some ry"
proof -
  have len: "2 \<le> length pts" using assms by (auto simp add: calibration_of_def split: if_splits)
  obtain sx sy where cs: "collect_scales pts [] [] = Inr (sx, sy)"
    using assms len by (auto simp add: calibration_of_def ebind_def split: sum.splits)
  have ne: "sx \<noteq> []" "sy \<noteq> []"
    using assms len cs by (auto simp add: calibration_of_def ebind_def split: if_splits)
  obtain mx my where m: "median sx = Inr mx" "median sy = Inr my"
    using assms len cs ne by (auto simp add: calibration_of_def ebind_def split: sum.splits)
  obtain rx ry where r: "py_round_nd mx 6 = Inr rx" "py_round_nd my 6 = Inr ry"
      "scale_x st = Some rx" "scale_y st = Some ry"
    using assms len cs ne m by (auto simp add: calibration_of_def ebind_def split: sum.splits)
  show ?thesis using len cs ne m r by blast
qed

lemma left_monitor_eval:
  "fst (compute_calibration now left_monitor_points s) =
     Inr \<lparr>calibrated = True, scale_x = Some (Fin (3 / 2)), scale_y = Some (Fin (3 / 2)),
          offset_x = 0, offset_y = 0, points = left_monitor_points, calibrated_at = Some now,
          verified = False, consistent = Some True,
          spread_x = Some (Fin 0), spread_y = Some (Fin 0),
          verification_notes = None, verified_at = None\<rparr>"
  by (simp add: left_monitor_points_def cal_eval fl_ev)

lemma int_truediv_neg: "int_truediv (- p) (- l) = int_truediv p l"
  by (simp add: int_truediv_def)

lemma ratio_lower:
  assumes "0 < p" "0 < l" "l \<le> 1000000 * p"
  shows "1 / 1000000 \<le> (of_int p / of_int l :: rat)"
proof -
  have "(of_int l :: rat) \<le> of_int (1000000 * p)" using assms(3) by (simp only: of_int_le_iff)
  then have "(of_int l :: rat) \<le> 1000000 * of_int p" by simp
  moreover have "(0::rat) < of_int l" using assms(2) by simp
  ultimately show ?thesis by (simp add: field_simps)
qed

lemma tiny_le: "pow2 (- 1022) \<le> 1 / 1000000 * (1 - 1 / 2 ^ 53) * (1 - 1 / 2 ^ 53)"
  by (simp add: pow2_def)

lemma int_truediv_lower_pos:
  assumes "0 < p" "0 < l" "l \<le> 1000000 * p" "int_truediv p l = Inr f"
  shows "fge (1 / 1000000 * (1 - 1 / 2 ^ 53)) f"
proof -
  define x :: rat where "x = of_int p / of_int l"
  have x: "1 / 1000000 \<le> x" unfolding x_def using assms(1-3) by (rule ratio_lower)
  have "pow2 (- 1022) \<le> 1 / 1000000" by (simp add: pow2_def)
  then have "pow2 (- 1022) \<le> x" using x by linarith
  then have "fge (x * (1 - 1 / 2 ^ 53)) (fl x)" by (rule fl_lower)
  moreover have "1 / 1000000 * (1 - 1 / 2 ^ 53) \<le> x * (1 - 1 / 2 ^ 53)"
    using x by (intro mult_right_mono) simp_all
  ultimately have "fge (1 / 1000000 * (1 - 1 / 2 ^ 53)) (fl x)" using fge_mono by blast
  moreover have "f = fl x"
    using assms(2,4) by (auto simp add: int_truediv_def x_def split: if_splits pyfloat.splits)
  ultimately show ?thesis by simp
qed

lemma int_truediv_lower:
  assumes "0 < p \<and> 0 < l \<or> p < 0 \<and> l < 0" "\<bar>l\<bar> \<le> 1000000 * \<bar>p\<bar>" "int_truediv p l = Inr f"
  shows "fge (1 / 1000000 * (1 - 1 / 2 ^ 53)) f"
proof (cases "0 < p")
  case True
  then have "0 < l" "l \<le> 1000000 * p" using assms(1,2) by auto
  with True show ?thesis using assms(3) by (intro int_truediv_lower_pos [of p l]) simp_all
next
  case False
  then have n: "0 < - p" "0 < - l" "- l \<le> 1000000 * (- p)" using assms(1,2) by auto
  have "int_truediv (- p) (- l) = Inr f" using assms(3) by (simp only: int_truediv_neg)
  with n show ?thesis by (intro int_truediv_lower_pos [of "- p" "- l"]) simp_all
qed

lemma spec_ratios_lower:
  assumes "\<forall>p \<in> set pts. (0 < phys p \<and> 0 < lgc p \<or> phys p < 0 \<and> lgc p < 0) \<and>
                        \<bar>lgc p\<bar> \<le> 1000000 * \<bar>phys p\<bar>"
    and "map Inr rs = spec_ratios phys lgc pts"
  shows "\<forall>f \<in> set rs. fge (1 / 1000000 * (1 - 1 / 2 ^ 53)) f"
proof
  fix f assume "f \<in> set rs"
  then have "(Inr f :: error + pyfloat) \<in> set (map Inr rs)" by simp
  then have "Inr f \<in> set (spec_ratios phys lgc pts)" unfolding assms(2) .
  then obtain p where p: "p \<in> set pts" "int_truediv (phys p) (lgc p) = Inr f"
    using spec_ratios_mem [of f phys lgc pts] by blast
  show "fge (1 / 1000000 * (1 - 1 / 2 ^ 53)) f"
    using assms(1) p by (intro int_truediv_lower [of "phys p" "lgc p"]) simp_all
qed

lemma fadd_lower:
  assumes "fge c a" "fge c b" "pow2 (- 1022) \<le> c"
  shows "fge (2 * c * (1 - 1 / 2 ^ 53)) (fadd a b)"
proof (cases a)
  case a: (Fin ra)
  show ?thesis
  proof (cases b)
    case b: (Fin rb)
    have s: "2 * c \<le> ra + rb" using assms(1,2) a b by simp
    have cp: "0 < c" using assms(3) pow2_pos [of "- 1022"] by linarith
    have "pow2 (- 1022) \<le> ra + rb" using s assms(3) cp by linarith
    then have g: "fge ((ra + rb) * (1 - 1 / 2 ^ 53)) (fl (ra + rb))" by (rule fl_lower)
    have "2 * c * (1 - 1 / 2 ^ 53) \<le> (ra + rb) * (1 - 1 / 2 ^ 53)"
      using s by (intro mult_right_mono) simp_all
    then have "fge (2 * c * (1 - 1 / 2 ^ 53)) (fl (ra + rb))" using g by (rule fge_mono)
    then show ?thesis by (simp only: a b fadd.simps)
  qed (use assms a in simp_all)
next
  case PInf
  then show ?thesis using assms by (cases b) simp_all
qed (use assms in simp_all)

lemma fhalf_lower:
  assumes "fge (2 * c) v" "pow2 (- 1022) \<le> c" "fdiv v (Fin 2) = Inr m"
  shows "fge (c * (1 - 1 / 2 ^ 53)) m"
proof (cases v)
  case (Fin rv)
  have h: "c \<le> rv / 2" using assms(1) Fin by simp
  then have "pow2 (- 1022) \<le> rv / 2" using assms(2) by linarith
  then have "fge (rv / 2 * (1 - 1 / 2 ^ 53)) (fl (rv / 2))" by (rule fl_lower)
  moreover have "c * (1 - 1 / 2 ^ 53) \<le> rv / 2 * (1 - 1 / 2 ^ 53)"
    using h by (intro mult_right_mono) simp_all
  moreover have "m = fl (rv / 2)" using assms(3) Fin by simp
  ultimately show ?thesis using fge_mono by blast
qed (use assms in auto)

lemma median_lower:
  assumes "xs \<noteq> []" "\<forall>x \<in> set xs. fge c x" "pow2 (- 1022) \<le> c * (1 - 1 / 2 ^ 53)"
    and "median xs = Inr m"
  shows "fge (c * (1 - 1 / 2 ^ 53) * (1 - 1 / 2 ^ 53)) m"
proof -
  have cp: "0 < c * (1 - 1 / 2 ^ 53)" using assms(3) pow2_pos [of "- 1022"] by linarith
  have d: "(0::rat) < 1 - 1 / 2 ^ 53" "(1::rat) - 1 / 2 ^ 53 \<le> 1" by simp_all
  have c0: "0 < c" using cp d(1) by (simp add: zero_less_mult_iff)
  have le1: "c * (1 - 1 / 2 ^ 53) \<le> c" using c0 d(2) by (simp add: mult_left_le)
  have le2: "c * (1 - 1 / 2 ^ 53) * (1 - 1 / 2 ^ 53) \<le> c * (1 - 1 / 2 ^ 53)"
    using cp d(2) by (simp add: mult_left_le)
  from median_cases [OF assms(1)] show ?thesis
  proof (elim disjE bexE)
    fix a assume "a \<in> set xs" "median xs = Inr a"
    then have "fge c m" using assms(2,4) by auto
    then show ?thesis using le1 le2 fge_mono by (meson order_trans)
  next
    fix a b assume ab: "a \<in> set xs" "b \<in> set xs" and md: "median xs = fdiv (fadd a b) (Fin 2)"
    have pc: "pow2 (- 1022) \<le> c" using assms(3) le1 by linarith
    have "fge (2 * c * (1 - 1 / 2 ^ 53)) (fadd a b)"
      using ab assms(2) pc by (intro fadd_lower) simp_all
    then have "fge (2 * (c * (1 - 1 / 2 ^ 53))) (fadd a b)" by (simp add: mult.assoc)
    moreover have "fdiv (fadd a b) (Fin 2) = Inr m" using md assms(4) by simp
    ultimately show ?thesis using assms(3) by (intro fhalf_lower [of _ "fadd a b"]) simp_all
  qed
qed

lemma py_round_nd_positive:
  assumes "fge c m" "1 / 2 < c * 10 ^ n" "pow2 (- 1022) \<le> 1 / 10 ^ n" "py_round_nd m n = Inr r"
  shows "flt (Fin 0) r"
proof (cases m)
  case (Fin a)
  have "c * 10 ^ n \<le> a * 10 ^ n" using assms(1) Fin by (intro mult_right_mono) simp_all
  moreover have "(of_int 1 :: rat) - 1 / 2 = 1 / 2" by simp
  ultimately have "of_int 1 - 1 / 2 < a * 10 ^ n" using assms(2) by linarith
  then have k: "1 \<le> rhe (a * 10 ^ n)" by (rule rhe_gt_half)
  define y where "y = of_int (rhe (a * 10 ^ n)) / (10 ^ n :: rat)"
  have "(of_int 1 :: rat) \<le> of_int (rhe (a * 10 ^ n))" using k by (simp only: of_int_le_iff)
  then have y: "1 / 10 ^ n \<le> y" by (simp add: y_def divide_right_mono)
  then have "pow2 (- 1022) \<le> y" using assms(3) by linarith
  then have g: "fge (y * (1 - 1 / 2 ^ 53)) (fl y)" by (rule fl_lower)
  have yp: "0 < y * (1 - 1 / 2 ^ 53)"
  proof -
    have "(0::rat) < 1 / 10 ^ n" by simp
    then have "0 < y" using y by linarith
    then show ?thesis by simp
  qed
  have "r = fl y" using assms(4) Fin by (auto simp add: y_def split: pyfloat.splits)
  then show ?thesis using g yp by (cases "fl y") simp_all
qed (use assms in auto)

text \<open>
  C9, as the code has it: when, on both axes, every point's physical and logical
  coordinates are nonzero and of the same sign, with the magnitude of the logical
  coordinate at most 1000000 times that of the physical one, a successful estimation
  stores scales greater than 0.
\<close>

theorem estimated_scale_positive:
  assumes "fst (compute_calibration now pts s) = Inr st"
    and "\<forall>p \<in> set pts.
           (0 < physical_x p \<and> 0 < logical_x p \<or> physical_x p < 0 \<and> logical_x p < 0) \<and>
           \<bar>logical_x p\<bar> \<le> 1000000 * \<bar>physical_x p\<bar> \<and>
           (0 < physical_y p \<and> 0 < logical_y p \<or> physical_y p < 0 \<and> logical_y p < 0) \<and>
           \<bar>logical_y p\<bar> \<le> 1000000 * \<bar>physical_y p\<bar>"
  shows "\<exists>sx sy. scale_x st = Some sx \<and> scale_y st = Some sy \<and> flt (Fin 0) sx \<and> flt (Fin 0) sy"
proof -
  have c: "calibration_of now pts = Inr st" using assms(1) by (simp add: fst_compute_calibration)
  obtain sx sy mx my rx ry where f:
      "collect_scales pts [] [] = Inr (sx, sy)" "sx \<noteq> []" "sy \<noteq> []"
      "median sx = Inr mx" "median sy = Inr my"
      "py_round_nd mx 6 = Inr rx" "py_round_nd my 6 = Inr ry"
      "scale_x st = Some rx" "scale_y st = Some ry"
    using calibration_of_scales [OF c] by blast
  have sp: "map Inr sx = spec_ratios physical_x logical_x pts"
      "map Inr sy = spec_ratios physical_y logical_y pts"
    using collect_scales_spec [OF f(1)] by auto
  have ax: "\<forall>p \<in> set pts.
      (0 < physical_x p \<and> 0 < logical_x p \<or> physical_x p < 0 \<and> logical_x p < 0) \<and>
      \<bar>logical_x p\<bar> \<le> 1000000 * \<bar>physical_x p\<bar>"
    using assms(2) by simp
  have ay: "\<forall>p \<in> set pts.
      (0 < physical_y p \<and> 0 < logical_y p \<or> physical_y p < 0 \<and> logical_y p < 0) \<and>
      \<bar>logical_y p\<bar> \<le> 1000000 * \<bar>physical_y p\<bar>"
    using assms(2) by simp
  have lx: "\<forall>f \<in> set sx. fge (1 / 1000000 * (1 - 1 / 2 ^ 53)) f"
    using ax sp(1) by (rule spec_ratios_lower)
  have ly: "\<forall>f \<in> set sy. fge (1 / 1000000 * (1 - 1 / 2 ^ 53)) f"
    using ay sp(2) by (rule spec_ratios_lower)
  have gx: "fge (1 / 1000000 * (1 - 1 / 2 ^ 53) * (1 - 1 / 2 ^ 53) * (1 - 1 / 2 ^ 53)) mx"
    using f(2) lx tiny_le f(4) by (rule median_lower)
  have gy: "fge (1 / 1000000 * (1 - 1 / 2 ^ 53) * (1 - 1 / 2 ^ 53) * (1 - 1 / 2 ^ 53)) my"
    using f(3) ly tiny_le f(5) by (rule median_lower)
  have half: "1 / 2 < 1 / 1000000 * (1 - 1 / 2 ^ 53) * (1 - 1 / 2 ^ 53) * (1 - 1 / 2 ^ 53) * (10 ^ 6 :: rat)"
    by simp
  have tiny: "pow2 (- 1022) \<le> 1 / 10 ^ 6" by (simp add: pow2_def)
  have "flt (Fin 0) rx" using gx half tiny f(6) by (rule py_round_nd_positive)
  moreover have "flt (Fin 0) ry" using gy half tiny f(7) by (rule py_round_nd_positive)
  ultimately show ?thesis using f(8,9) by simp
qed

text \<open>
  A witness with negative x coordinates and positive y coordinates: physical (-150, 300)
  at logical (-100, 200) and physical (-300, 150) at logical (-200, 100).
\<close>

theorem estimated_scale_positive_witness:
  "\<not> isl (fst (compute_calibration 0 left_monitor_points None)) \<and>
   flt (Fin 0) (the (scale_x (projr (fst (compute_calibration 0 left_monitor_points None))))) \<and>
   flt (Fin 0) (the (scale_y (projr (fst (compute_calibration 0 left_monitor_points None)))))"
proof -
  have e: "fst (compute_calibration 0 left_monitor_points None) =
      Inr (projr (fst (compute_calibration 0 left_monitor_points None)))"
    by (simp add: left_monitor_eval)
  have h: "\<forall>p \<in> set left_monitor_points.
      (0 < physical_x p \<and> 0 < logical_x p \<or> physical_x p < 0 \<and> logical_x p < 0) \<and>
      \<bar>logical_x p\<bar> \<le> 1000000 * \<bar>physical_x p\<bar> \<and>
      (0 < physical_y p \<and> 0 < logical_y p \<or> physical_y p < 0 \<and> logical_y p < 0) \<and>
      \<bar>logical_y p\<bar> \<le> 1000000 * \<bar>physical_y p\<bar>"
    by (simp add: left_monitor_points_def mk_point_def)
  obtain sx sy where "scale_x (projr (fst (compute_calibration 0 left_monitor_points None))) = Some sx"
      "scale_y (projr (fst (compute_calibration 0 left_monitor_points None))) = Some sy"
      "flt (Fin 0) sx" "flt (Fin 0) sy"
    using estimated_scale_positive [OF e h] by blast
  then show ?thesis using e by (metis option.sel sum.disc(2))
qed

text \<open>
  C9, as stated, fails where a physical coordinate is 0: two points with nonzero logical
  coordinates on both axes, observed at the screen origin, give the scales 0.0. (Where the
  physical and the logical coordinate differ in sign, the scale is negative.)
\<close>

theorem zero_scale_estimate:
  "length origin_points = 2 \<and>
   logical_x (origin_points ! 0) \<noteq> 0 \<and> logical_y (origin_points ! 0) \<noteq> 0 \<and>
   logical_x (origin_points ! 1) \<noteq> 0 \<and> logical_y (origin_points ! 1) \<noteq> 0 \<and>
   \<not> isl (fst (compute_calibration 0 origin_points None)) \<and>
   scale_x (projr (fst (compute_calibration 0 origin_points None))) = Some (Fin 0) \<and>
   scale_y (projr (fst (compute_calibration 0 origin_points None))) = Some (Fin 0) \<and>
   \<not> flt (Fin 0) (Fin 0)"
  by (simp add: origin_eval) (simp add: origin_points_def mk_point_def)

section \<open>The status evaluator\<close>

text \<open>
  On a record whose \<^verbatim>\<open>calibrated_at\<close> is set, \<^verbatim>\<open>check_calibration\<close> returns one status,
  chosen in the order missing, stale, unverified, inconsistent, ok, and asks for action
  exactly when the status is not ok.
\<close>

lemma check_calibration_dated:
  assumes "calibrated_at st = Some t"
  shows "\<exists>r. check_calibration now (Some st) = Inr r \<and>
           status r =
             (if \<not> calibrated st then Missing
              else if seven_days < now - t then Stale
              else if \<not> verified st then Unverified
              else if consistent st = Some False then Inconsistent
              else Ok) \<and>
           action_needed r = (status r \<noteq> Ok)"
  using assms
  by (cases "consistent st")
     (auto simp add: check_calibration_def load_state_def Let_def)

text \<open>
  The unassigned \<^verbatim>\<open>age\<close> is read exactly on a record that is calibrated and undated.
\<close>

lemma check_calibration_unbound_iff:
  "check_calibration now s = Inl UnboundLocalError \<longleftrightarrow>
     calibrated (load_state s) \<and> calibrated_at (load_state s) = None"
  by (cases "calibrated_at (load_state s)")
     (auto simp add: check_calibration_def Let_def)

text \<open>
  C1. The claim is that the classification returns a status for every loaded record. On a
  loaded record with \<^verbatim>\<open>calibrated\<close> true and \<^verbatim>\<open>calibrated_at\<close> null, \<^verbatim>\<open>stale\<close> is set to
  true without \<^verbatim>\<open>age\<close> being assigned, and the stale branch, which formats \<^verbatim>\<open>age.days\<close>
  into its message, raises instead of returning the status stale.
\<close>

theorem check_calibration_undated_raises:
  "check_calibration now (Some undated_record) = Inl UnboundLocalError"
  by (simp add: check_calibration_def load_state_def undated_record_def)

section \<open>Atomicity of the estimator\<close>

lemma calibration_of_fields:
  assumes "calibration_of now pts = Inr st"
  shows "calibrated st \<and> scale_x st \<noteq> None \<and> scale_y st \<noteq> None \<and> points st = pts \<and>
         calibrated_at st = Some now \<and> verified st = False \<and> consistent st \<noteq> None \<and>
         spread_x st \<noteq> None \<and> spread_y st \<noteq> None"
  using assms
  by (auto simp add: calibration_of_def ebind_def split: if_splits sum.splits prod.splits)

text \<open>
  C6. Whenever \<^verbatim>\<open>compute_calibration\<close> raises (for too few points, for an axis without a
  usable ratio, or for any other reason), the state file is what it was before the call.
  Whenever it returns, the file holds exactly the returned record, and that record has
  every field of a model set: \<^verbatim>\<open>calibrated\<close> true, both scales, the points as given, the
  time of the call, \<^verbatim>\<open>verified\<close> false, the consistency flag and both spreads.
\<close>

theorem compute_calibration_atomic:
  "(\<forall>e. fst (compute_calibration now pts s) = Inl e \<longrightarrow>
        snd (compute_calibration now pts s) = s) \<and>
   (\<forall>st. fst (compute_calibration now pts s) = Inr st \<longrightarrow>
        snd (compute_calibration now pts s) = Some st \<and>
        calibrated st \<and> scale_x st \<noteq> None \<and> scale_y st \<noteq> None \<and> points st = pts \<and>
        calibrated_at st = Some now \<and> verified st = False \<and> consistent st \<noteq> None \<and>
        spread_x st \<noteq> None \<and> spread_y st \<noteq> None)"
proof (cases "calibration_of now pts")
  case (Inl e)
  then show ?thesis by (simp add: compute_calibration_def)
next
  case (Inr st)
  then show ?thesis
    using calibration_of_fields [OF Inr] by (simp add: compute_calibration_def save_state_def)
qed

theorem compute_calibration_atomic_witness:
  "fst (compute_calibration 5 one_point (Some undated_record)) = Inl InsufficientSamples \<and>
   snd (compute_calibration 5 one_point (Some undated_record)) = Some undated_record \<and>
   fst (compute_calibration 5 zero_x_points (Some undated_record)) = Inl DegenerateInput \<and>
   snd (compute_calibration 5 zero_x_points (Some undated_record)) = Some undated_record"
proof -
  have a: "fst (compute_calibration 5 one_point (Some undated_record)) = Inl InsufficientSamples"
    by (simp add: compute_calibration_def calibration_of_def one_point_def)
  have b: "fst (compute_calibration 5 zero_x_points (Some undated_record)) = Inl DegenerateInput"
    by (simp add: zero_x_points_def cal_eval fl_ev)
  show ?thesis
    using a b compute_calibration_atomic [of 5 one_point "Some undated_record"]
      compute_calibration_atomic [of 5 zero_x_points "Some undated_record"]
    by simp
qed

section \<open>The frame of the verification step\<close>

text \<open>
  C8. On a stored record, \<^verbatim>\<open>mark_verified(success, notes)\<close> stores and returns the record
  with \<^verbatim>\<open>verified\<close> set to \<open>success\<close>, \<^verbatim>\<open>verification_notes\<close> to \<open>notes\<close> and
  \<^verbatim>\<open>verified_at\<close> to the time of the call. Every other field keeps its value: the scales,
  the offsets, the points, \<^verbatim>\<open>calibrated\<close>, \<^verbatim>\<open>consistent\<close>, the spreads and
  \<^verbatim>\<open>calibrated_at\<close>. With \<open>success\<close> false the stored \<^verbatim>\<open>verified\<close> is false.
\<close>

theorem mark_verified_frame:
  "snd (mark_verified now success notes (Some st)) =
     Some (st\<lparr>verified := success, verification_notes := Some notes, verified_at := Some now\<rparr>) \<and>
   fst (mark_verified now success notes (Some st)) =
     st\<lparr>verified := success, verification_notes := Some notes, verified_at := Some now\<rparr> \<and>
   verified (fst (mark_verified now success notes (Some st))) = success \<and>
   verification_notes (fst (mark_verified now success notes (Some st))) = Some notes \<and>
   verified_at (fst (mark_verified now success notes (Some st))) = Some now \<and>
   scale_x (fst (mark_verified now success notes (Some st))) = scale_x st \<and>
   scale_y (fst (mark_verified now success notes (Some st))) = scale_y st \<and>
   offset_x (fst (mark_verified now success notes (Some st))) = offset_x st \<and>
   offset_y (fst (mark_verified now success notes (Some st))) = offset_y st \<and>
   points (fst (mark_verified now success notes (Some st))) = points st \<and>
   calibrated (fst (mark_verified now success notes (Some st))) = calibrated st \<and>
   consistent (fst (mark_verified now success notes (Some st))) = consistent st \<and>
   spread_x (fst (mark_verified now success notes (Some st))) = spread_x st \<and>
   spread_y (fst (mark_verified now success notes (Some st))) = spread_y st \<and>
   calibrated_at (fst (mark_verified now success notes (Some st))) = calibrated_at st \<and>
   verified (fst (mark_verified now False notes (Some st))) = False"
  by (simp add: mark_verified_def load_state_def save_state_def Let_def)

section \<open>The invariant of reachable stores\<close>

lemma reachable_dated:
  "reachable s \<Longrightarrow> calibrated (load_state s) \<longrightarrow> calibrated_at (load_state s) \<noteq> None"
proof (induction rule: reachable.induct)
  case init
  show ?case by (simp add: load_state_def default_state_def)
next
  case (estimate s now pts)
  show ?case
  proof (cases "calibration_of now pts")
    case (Inl e)
    with estimate show ?thesis by (simp add: compute_calibration_def)
  next
    case (Inr st)
    with calibration_of_fields [OF Inr] show ?thesis
      by (simp add: compute_calibration_def save_state_def load_state_def)
  qed
next
  case (verify s now success nts)
  then show ?case
    by (simp add: mark_verified_def save_state_def load_state_def Let_def)
qed

text \<open>
  C10. Every store the engine's operations can produce holds a record in which
  \<^verbatim>\<open>calibrated\<close> true implies a set \<^verbatim>\<open>calibrated_at\<close>; on such a store the status
  evaluator does not read the unassigned \<^verbatim>\<open>age\<close> and returns a result, at any clock value.
\<close>

theorem reachable_check_calibration_total:
  assumes "reachable s"
  shows "(calibrated (load_state s) \<longrightarrow> calibrated_at (load_state s) \<noteq> None) \<and>
         check_calibration now s \<noteq> Inl UnboundLocalError \<and>
         (\<exists>r. check_calibration now s = Inr r)"
proof -
  have inv: "calibrated (load_state s) \<longrightarrow> calibrated_at (load_state s) \<noteq> None"
    using assms by (rule reachable_dated)
  have "\<exists>r. check_calibration now s = Inr r"
  proof (cases "calibrated (load_state s)")
    case False
    then show ?thesis by (simp add: check_calibration_def)
  next
    case True
    with inv obtain t where "calibrated_at (load_state s) = Some t" by auto
    with True show ?thesis by (simp add: check_calibration_def Let_def)
  qed
  with inv show ?thesis by auto
qed

theorem reachable_check_calibration_total_witness:
  "reachable (snd (mark_verified 7 True ''checked'' (snd (compute_calibration 5 spec_example_points None)))) \<and>
   calibrated (load_state
     (snd (mark_verified 7 True ''checked'' (snd (compute_calibration 5 spec_example_points None))))) \<and>
   calibrated_at (load_state
     (snd (mark_verified 7 True ''checked'' (snd (compute_calibration 5 spec_example_points None))))) \<noteq> None \<and>
   check_calibration 9
     (snd (mark_verified 7 True ''checked'' (snd (compute_calibration 5 spec_example_points None))))
     \<noteq> Inl UnboundLocalError"
proof -
  let ?s = "snd (mark_verified 7 True ''checked'' (snd (compute_calibration 5 spec_example_points None)))"
  have r: "reachable ?s"
    by (intro reachable.verify reachable.estimate reachable.init)
  have c: "calibrated (load_state ?s)"
    by (simp add: spec_example_points_def cal_eval fl_ev mark_verified_def load_state_def)
  show ?thesis
    using r c reachable_check_calibration_total [OF r, of 9] by simp
qed

end
